theory Spec2Isabelle
  imports Main "HOL-Library.Sublist"
begin

section \<open>Text primitives of the Python runtime\<close>

text \<open>
  A Python \<open>str\<close> is modelled as a \<open>string\<close>; a \<open>char\<close> stands for the code point of
  the same number, so the model covers text in the range U+0000 .. U+00FF. The character
  classes below are those of \<open>str.isspace\<close>, \<open>str.splitlines\<close>, \<open>str.lower\<close> and of the
  \<open>re\<close> classes \<open>\s\<close>, \<open>\d\<close>, \<open>\w\<close> on that range.
\<close>

definition code :: "char \<Rightarrow> nat" where
  "code c = of_char c"

definition isspace :: "char \<Rightarrow> bool" where
  "isspace c = ((9 \<le> code c \<and> code c \<le> 13) \<or> (28 \<le> code c \<and> code c \<le> 32)
                \<or> code c = 133 \<or> code c = 160)"

definition is_linebreak :: "char \<Rightarrow> bool" where
  "is_linebreak c = ((10 \<le> code c \<and> code c \<le> 13) \<or> (28 \<le> code c \<and> code c \<le> 30)
                     \<or> code c = 133)"

definition is_digit :: "char \<Rightarrow> bool" where
  "is_digit c = (48 \<le> code c \<and> code c \<le> 57)"

definition is_word :: "char \<Rightarrow> bool" where
  "is_word c = ((48 \<le> code c \<and> code c \<le> 57) \<or> (65 \<le> code c \<and> code c \<le> 90)
                \<or> code c = 95 \<or> (97 \<le> code c \<and> code c \<le> 122)
                \<or> code c = 170 \<or> code c = 178 \<or> code c = 179 \<or> code c = 181
                \<or> code c = 185 \<or> code c = 186 \<or> (188 \<le> code c \<and> code c \<le> 190)
                \<or> (192 \<le> code c \<and> code c \<le> 214) \<or> (216 \<le> code c \<and> code c \<le> 246)
                \<or> 248 \<le> code c)"

definition lower_char :: "char \<Rightarrow> char" where
  "lower_char c = (if (65 \<le> code c \<and> code c \<le> 90)
                      \<or> (192 \<le> code c \<and> code c \<le> 222 \<and> code c \<noteq> 215)
                   then char_of (code c + 32) else c)"

definition lower :: "string \<Rightarrow> string" where
  "lower s = map lower_char s"

definition lstrip :: "string \<Rightarrow> string" where
  "lstrip s = dropWhile isspace s"

definition rstrip :: "string \<Rightarrow> string" where
  "rstrip s = rev (dropWhile isspace (rev s))"

definition strip :: "string \<Rightarrow> string" where
  "strip s = rstrip (lstrip s)"

text \<open>
  \<open>str.splitlines()\<close>: a line ends at any line-break character, \<open>\r\n\<close> counting as
  one; the break is not part of the line, and no empty last line is produced.
\<close>

fun splitlines_from :: "string \<Rightarrow> string \<Rightarrow> string list" where
  "splitlines_from cur [] = (if cur = [] then [] else [cur])"
| "splitlines_from cur (c # cs) =
     (if c = CHR 0x0D \<and> cs \<noteq> [] \<and> hd cs = CHR 0x0A then cur # splitlines_from [] (tl cs)
      else if is_linebreak c then cur # splitlines_from [] cs
      else splitlines_from (cur @ [c]) cs)"

definition splitlines :: "string \<Rightarrow> string list" where
  "splitlines s = splitlines_from [] s"

text \<open>\<open>sep.join(xs)\<close>.\<close>

fun join :: "string \<Rightarrow> string list \<Rightarrow> string" where
  "join sep [] = []"
| "join sep [x] = x"
| "join sep (x # y # ys) = x @ sep @ join sep (y # ys)"

text \<open>A literal of a case-insensitive pattern (lower-case in the source) at the start of a text.\<close>

definition starts_ci :: "string \<Rightarrow> string \<Rightarrow> bool" where
  "starts_ci kw s = (length kw \<le> length s \<and> lower (take (length kw) s) = kw)"

section \<open>Option identification (component 4)\<close>

definition MESSAGE_SEARCH_WINDOW :: int where
  "MESSAGE_SEARCH_WINDOW = 15"

definition TIME_SEARCH_WINDOW_MINUTES :: int where
  "TIME_SEARCH_WINDOW_MINUTES = 20"

definition SIMILARITY_THRESHOLD :: nat where
  "SIMILARITY_THRESHOLD = 65"

definition MAX_LINES_FOR_HEURISTIC_OPTION_BLOCK :: nat where
  "MAX_LINES_FOR_HEURISTIC_OPTION_BLOCK = 6"

definition MAX_LENGTH_FOR_HEURISTIC_OPTION_BLOCK :: nat where
  "MAX_LENGTH_FOR_HEURISTIC_OPTION_BLOCK = 200"

text \<open>
  The three regular expressions of the module, each as the function its uses compute.
  All are anchored with \<open>^\<close> and compiled with \<open>re.IGNORECASE\<close>. The bullet U+2022 of the
  class \<open>[-\<bullet>*]\<close> is outside the range of the model, which leaves \<open>-\<close> and \<open>*\<close>.
\<close>

definition marker_punct :: "char \<Rightarrow> bool" where
  "marker_punct c = (c = CHR ''.'' \<or> c = CHR '')'' \<or> c = CHR '':'')"

definition marker_letter :: "char \<Rightarrow> bool" where
  "marker_letter c = ((97 \<le> code (lower_char c) \<and> code (lower_char c) \<le> 100)
                      \<or> (49 \<le> code c \<and> code c \<le> 52))"

definition marker_bullet :: "char \<Rightarrow> bool" where
  "marker_bullet c = (c = CHR ''-'' \<or> c = CHR ''*'')"

text \<open>
  \<open>option_marker_regex = ^\s*([a-d][\.\):]|[1-4][\.\):]|[-\<bullet>*])\s+\<close>: the text after the
  match, if there is a match.
\<close>

fun marker_token :: "string \<Rightarrow> string option" where
  "marker_token [] = None"
| "marker_token [c] = (if marker_bullet c then Some [] else None)"
| "marker_token (c # d # r) =
     (if marker_letter c \<and> marker_punct d then Some r
      else if marker_bullet c then Some (d # r) else None)"

definition option_marker_regex_end :: "string \<Rightarrow> string option" where
  "option_marker_regex_end s =
     (case marker_token (dropWhile isspace s) of
        None \<Rightarrow> None
      | Some r \<Rightarrow> (if r \<noteq> [] \<and> isspace (hd r) then Some (dropWhile isspace r) else None))"

definition option_marker_regex_match :: "string \<Rightarrow> bool" where
  "option_marker_regex_match s = (option_marker_regex_end s \<noteq> None)"

text \<open>\<open>option_marker_regex.sub('', s)\<close>: the only match can be at the start.\<close>

definition option_marker_regex_sub :: "string \<Rightarrow> string" where
  "option_marker_regex_sub s = (case option_marker_regex_end s of None \<Rightarrow> s | Some r \<Rightarrow> r)"

text \<open>\<open>only_marker_regex = ^\s*([a-d][\.\):]?|[1-4][\.\):]?|[-\<bullet>*])\s*$\<close>.\<close>

fun only_marker_token :: "string \<Rightarrow> string option" where
  "only_marker_token [] = None"
| "only_marker_token [c] = (if marker_letter c \<or> marker_bullet c then Some [] else None)"
| "only_marker_token (c # d # r) =
     (if marker_letter c then (if marker_punct d then Some r else Some (d # r))
      else if marker_bullet c then Some (d # r) else None)"

definition only_marker_regex_match :: "string \<Rightarrow> bool" where
  "only_marker_regex_match s =
     (case only_marker_token (dropWhile isspace s) of
        None \<Rightarrow> False
      | Some r \<Rightarrow> list_all isspace r)"

text \<open>
  \<open>explicit_option_keywords = ^\s*(options were|options?|optns?)\b.*[:\-]?\s*\<close>. After
  the keyword and the word boundary, \<open>.*\<close> runs to the end of the line, \<open>[:\-]?\<close> is left
  with nothing and \<open>\s*\<close> takes the white space that follows.
\<close>

definition word_boundary_before :: "string \<Rightarrow> bool" where
  "word_boundary_before r = (r = [] \<or> \<not> is_word (hd r))"

definition keyword_at :: "string \<Rightarrow> string \<Rightarrow> bool" where
  "keyword_at kw s = (starts_ci kw s \<and> word_boundary_before (drop (length kw) s))"

definition explicit_option_keywords_end :: "string \<Rightarrow> string option" where
  "explicit_option_keywords_end s =
     (let s1 = dropWhile isspace s in
      if keyword_at ''options were'' s1 \<or> keyword_at ''options'' s1 \<or> keyword_at ''option'' s1
         \<or> keyword_at ''optns'' s1 \<or> keyword_at ''optn'' s1
      then Some (dropWhile isspace (dropWhile (\<lambda>c. c \<noteq> CHR 0x0A) s1))
      else None)"

definition explicit_option_keywords_match :: "string \<Rightarrow> bool" where
  "explicit_option_keywords_match s = (explicit_option_keywords_end s \<noteq> None)"

definition explicit_option_keywords_sub :: "string \<Rightarrow> string" where
  "explicit_option_keywords_sub s =
     (case explicit_option_keywords_end s of None \<Rightarrow> s | Some r \<Rightarrow> r)"

text \<open>
  The loop of \<open>extract_options_from_text\<close>: the options collected so far and the flag
  \<open>in_option_section\<close> are the state; the branches are in the order of the source.
\<close>

fun extract_loop :: "string list \<Rightarrow> string list \<Rightarrow> bool \<Rightarrow> string list" where
  "extract_loop [] options in_option_section = options"
| "extract_loop (line # rest) options in_option_section =
     (let line_stripped = strip line in
      if line_stripped = [] \<or> only_marker_regex_match line_stripped
      then extract_loop rest options in_option_section
      else if explicit_option_keywords_match line_stripped
      then (let option_text_on_keyword_line = strip (explicit_option_keywords_sub line_stripped)
            in extract_loop rest
                 (if option_text_on_keyword_line \<noteq> []
                  then options @ [option_text_on_keyword_line] else options) True)
      else if in_option_section \<or> option_marker_regex_match line_stripped
      then extract_loop rest (options @ [line_stripped]) in_option_section
      else if options \<noteq> []
              \<and> (option_marker_regex_match (last options) \<or> length (last options) < 80)
              \<and> length line_stripped < 80
      then extract_loop rest (options @ [line_stripped]) in_option_section
      else if in_option_section \<and> length line_stripped > 100
              \<and> \<not> option_marker_regex_match line_stripped
      then extract_loop rest options False
      else extract_loop rest options in_option_section)"

text \<open>
  The fallback on short blocks. \<open>short_line_count >= len(non_empty_lines) * 0.6\<close> is a
  comparison with a float; for the at most six lines of the guard it agrees with the
  integer comparison written here.
\<close>

definition extract_options_from_text :: "string \<Rightarrow> string list" where
  "extract_options_from_text text =
     (let lines = splitlines text;
          options = extract_loop lines [] False
      in if options = [] \<and> length lines \<le> MAX_LINES_FOR_HEURISTIC_OPTION_BLOCK
            \<and> length text < MAX_LENGTH_FOR_HEURISTIC_OPTION_BLOCK
         then (let non_empty_lines = map strip (filter (\<lambda>ln. strip ln \<noteq> []) lines);
                   short_line_count = length (filter (\<lambda>ln. length ln < 80) non_empty_lines)
               in if length non_empty_lines > 0
                     \<and> 10 * short_line_count \<ge> 6 * length non_empty_lines
                  then options @ non_empty_lines else options)
         else options)"

section \<open>Library functions taken as parameters\<close>

text \<open>
  \<open>datetime\<close> and \<open>thefuzz\<close> are libraries, not code of the repository. Their functions
  are parameters of the model. A naive \<open>datetime\<close> is the number of microseconds since
  0001-01-01T00:00:00, its minimum; \<open>None\<close> is the \<open>ValueError\<close> of a parser.
\<close>

type_synonym datetime = int

record pylib =
  strptime :: "string \<Rightarrow> string \<Rightarrow> datetime option"
  isoformat :: "datetime \<Rightarrow> string"
  fromisoformat :: "string \<Rightarrow> datetime option"
  token_set_ratio :: "string \<Rightarrow> string \<Rightarrow> nat"

section \<open>Transcript reader (component 1)\<close>

record message =
  msg_id :: int
  timestamp_str :: "string option"
  timestamp :: "string option"
  user :: string
  original_text :: string
  cleaned_text :: string
  is_potential_stem :: bool

text \<open>
  \<open>line_regex\<close>, first part: the optional time stamp
  \<open>\[?(\d{1,2}/\d{1,2}/\d{2,4},? \d{1,2}:\d{2}(?::\d{2})?(?: [AP]M)?)]? - \<close>.
  Every run of digits is followed by a character that is no digit, so a bounded
  repetition matches exactly when the whole run of digits has a length within the bounds.
\<close>

definition starts_with :: "string \<Rightarrow> string \<Rightarrow> bool" where
  "starts_with p s = (take (length p) s = p)"

definition digits :: "nat \<Rightarrow> nat \<Rightarrow> string \<Rightarrow> string option" where
  "digits lo hi s =
     (let n = length (takeWhile is_digit s)
      in if lo \<le> n \<and> n \<le> hi then Some (drop n s) else None)"

definition lit :: "string \<Rightarrow> string \<Rightarrow> string option" where
  "lit p s = (if starts_with p s then Some (drop (length p) s) else None)"

definition opt_lit :: "string \<Rightarrow> string \<Rightarrow> string" where
  "opt_lit p s = (if starts_with p s then drop (length p) s else s)"

text \<open>The tail \<open>]? - \<close> after the captured group: the text after it.\<close>

definition ts_close :: "string \<Rightarrow> string option" where
  "ts_close s = lit '' - '' (opt_lit '']'' s)"

text \<open>
  \<open>(?: [AP]M)?\<close> and then the tail: the end of the captured group and the text after the
  whole prefix. An optional part is tried first and given up when what follows fails.
\<close>

definition ts_meridian :: "string \<Rightarrow> (string \<times> string) option" where
  "ts_meridian s =
     (case (if starts_with '' AM'' s \<or> starts_with '' PM'' s
            then map_option (Pair (drop 3 s)) (ts_close (drop 3 s)) else None) of
        Some r \<Rightarrow> Some r
      | None \<Rightarrow> map_option (Pair s) (ts_close s))"

definition ts_seconds :: "string \<Rightarrow> (string \<times> string) option" where
  "ts_seconds s =
     (case Option.bind (Option.bind (lit '':'' s) (digits 2 2)) ts_meridian of
        Some r \<Rightarrow> Some r
      | None \<Rightarrow> ts_meridian s)"

definition ts_body :: "string \<Rightarrow> (string \<times> string) option" where
  "ts_body s =
     Option.bind (digits 1 2 s) (\<lambda>s.
     Option.bind (lit ''/'' s) (\<lambda>s.
     Option.bind (digits 1 2 s) (\<lambda>s.
     Option.bind (lit ''/'' s) (\<lambda>s.
     Option.bind (digits 2 4 s) (\<lambda>s.
     Option.bind (lit '' '' (opt_lit '','' s)) (\<lambda>s.
     Option.bind (digits 1 2 s) (\<lambda>s.
     Option.bind (lit '':'' s) (\<lambda>s.
     Option.bind (digits 2 2 s) ts_seconds))))))))"

text \<open>The captured time stamp and the text after the prefix.\<close>

definition ts_prefix :: "string \<Rightarrow> (string \<times> string) option" where
  "ts_prefix s =
     (let s0 = opt_lit ''['' s
      in case ts_body s0 of
           None \<Rightarrow> None
         | Some (group_end, rest) \<Rightarrow> Some (take (length s0 - length group_end) s0, rest))"

text \<open>
  Second part, \<open>((?:U+200E|U+200F)*?.*?(?:: ))?(.+)\<close>: the lazy \<open>.*?\<close> stops at the first
  \<open>: \<close> after which \<open>.+\<close> still finds a character; \<open>.\<close> matches everything but the
  newline. The marks U+200E and U+200F are outside the range of the model.
  \<open>user_end s\<close> is the length of the user part.
\<close>

fun user_end :: "string \<Rightarrow> nat option" where
  "user_end [] = None"
| "user_end (c # cs) =
     (if c = CHR '':'' \<and> starts_with '' '' cs \<and> drop 1 cs \<noteq> [] \<and> hd (drop 1 cs) \<noteq> CHR 0x0A
      then Some 2
      else if c = CHR 0x0A then None
      else map_option Suc (user_end cs))"

definition user_and_text :: "string \<Rightarrow> (string option \<times> string) option" where
  "user_and_text s =
     (case user_end s of
        Some n \<Rightarrow> Some (Some (take n s), takeWhile (\<lambda>c. c \<noteq> CHR 0x0A) (drop n s))
      | None \<Rightarrow> (if s \<noteq> [] \<and> hd s \<noteq> CHR 0x0A
                 then Some (None, takeWhile (\<lambda>c. c \<noteq> CHR 0x0A) s) else None))"

text \<open>\<open>line_regex.match(line)\<close> and its three groups.\<close>

definition line_regex :: "string \<Rightarrow> (string option \<times> string option \<times> string) option" where
  "line_regex line =
     (case (case ts_prefix line of
              None \<Rightarrow> None
            | Some (ts, rest) \<Rightarrow> map_option (Pair (Some ts)) (user_and_text rest)) of
        Some r \<Rightarrow> Some r
      | None \<Rightarrow> map_option (Pair None) (user_and_text line))"

text \<open>
  The system-notice patterns, searched with \<open>re.IGNORECASE\<close>. \<open>$\<close> is the end of the text
  or the place before a last newline. The five \<open>omitted\<close> patterns start with U+200E and
  match no text of the model.
\<close>

fun contains :: "string \<Rightarrow> string \<Rightarrow> bool" where
  "contains p [] = (p = [])"
| "contains p (c # cs) = (starts_with p (c # cs) \<or> contains p cs)"

definition ends_ci :: "string \<Rightarrow> string \<Rightarrow> bool" where
  "ends_ci kw s = (length kw \<le> length s \<and> lower (drop (length s - length kw) s) = kw)"

definition search_at_end :: "string \<Rightarrow> string \<Rightarrow> bool" where
  "search_at_end kw s = (ends_ci kw s \<or> (s \<noteq> [] \<and> last s = CHR 0x0A \<and> ends_ci kw (butlast s)))"

definition is_system_message :: "string \<Rightarrow> bool" where
  "is_system_message line =
     (search_at_end ''left'' line \<or> search_at_end ''added'' line
      \<or> contains ''created group'' (lower line)
      \<or> contains ''changed the subject'' (lower line)
      \<or> contains (''changed this group'' @ [CHR 0x27] @ ''s icon'') (lower line))"

definition formats_to_try :: "string list" where
  "formats_to_try = [''%d/%m/%y, %H:%M'', ''%d/%m/%Y, %H:%M'', ''%m/%d/%y, %I:%M %p'',
                     ''%d/%m/%Y, %H:%M:%S'', ''%m/%d/%Y, %H:%M:%S'']"

text \<open>The first format that \<open>strptime\<close> accepts gives the parsed time stamp.\<close>

fun try_formats :: "pylib \<Rightarrow> string \<Rightarrow> string list \<Rightarrow> datetime option" where
  "try_formats L ts [] = None"
| "try_formats L ts (fmt # fmts) =
     (case strptime L (strip (filter (\<lambda>c. c \<noteq> CHR '']'') (filter (\<lambda>c. c \<noteq> CHR ''['') ts))) fmt of
        Some t \<Rightarrow> Some t
      | None \<Rightarrow> try_formats L ts fmts)"

definition new_message :: "pylib \<Rightarrow> int \<Rightarrow> string \<Rightarrow> string option \<Rightarrow> string \<Rightarrow> message" where
  "new_message L n ts user_part text =
     \<lparr> msg_id = n,
       timestamp_str = Some ts,
       timestamp = map_option (isoformat L) (try_formats L ts formats_to_try),
       user = (case user_part of
                 Some u \<Rightarrow> (if u \<noteq> [] then strip (filter (\<lambda>c. c \<noteq> CHR '':'') u) else ''Unknown'')
               | None \<Rightarrow> ''Unknown''),
       original_text = strip text,
       cleaned_text = lower (strip text),
       is_potential_stem = False \<rparr>"

definition untimed_message :: "int \<Rightarrow> string \<Rightarrow> message" where
  "untimed_message n text =
     \<lparr> msg_id = n, timestamp_str = None, timestamp = None, user = ''Unknown'',
       original_text = strip text, cleaned_text = lower (strip text),
       is_potential_stem = False \<rparr>"

definition append_text :: "message \<Rightarrow> string \<Rightarrow> message" where
  "append_text m text =
     m\<lparr> original_text := original_text m @ [CHR 0x0A] @ text,
        cleaned_text := cleaned_text m @ [CHR 0x0A] @ lower text \<rparr>"

text \<open>
  The loop of \<open>preprocess_transcript\<close> over the lines; its state is the list
  \<open>messages\<close>, \<open>current_message\<close> and \<open>message_id_counter\<close>.
\<close>

fun reader_loop :: "pylib \<Rightarrow> string list \<Rightarrow> message list \<Rightarrow> message option \<Rightarrow> int \<Rightarrow> message list" where
  "reader_loop L [] messages current_message message_id_counter =
     (case current_message of None \<Rightarrow> messages | Some m \<Rightarrow> messages @ [m])"
| "reader_loop L (raw # rest) messages current_message message_id_counter =
     (let line = strip raw in
      if line = [] then reader_loop L rest messages current_message message_id_counter
      else case line_regex line of
        Some (Some ts, user_part, text) \<Rightarrow>
          (if ts \<noteq> []
           then reader_loop L rest
                  (case current_message of None \<Rightarrow> messages | Some m \<Rightarrow> messages @ [m])
                  (Some (new_message L (message_id_counter + 1) ts user_part text))
                  (message_id_counter + 1)
           else if text \<noteq> []
           then (case current_message of
                   Some m \<Rightarrow> reader_loop L rest messages (Some (append_text m text)) message_id_counter
                 | None \<Rightarrow> reader_loop L rest messages
                            (Some (untimed_message (message_id_counter + 1) text))
                            (message_id_counter + 1))
           else reader_loop L rest messages current_message message_id_counter)
      | Some (None, user_part, text) \<Rightarrow>
          (if text \<noteq> []
           then (case current_message of
                   Some m \<Rightarrow> reader_loop L rest messages (Some (append_text m text)) message_id_counter
                 | None \<Rightarrow> reader_loop L rest messages
                            (Some (untimed_message (message_id_counter + 1) text))
                            (message_id_counter + 1))
           else reader_loop L rest messages current_message message_id_counter)
      | None \<Rightarrow>
          (case current_message of
             Some m \<Rightarrow>
               (if \<not> is_system_message line
                then reader_loop L rest messages (Some (append_text m line)) message_id_counter
                else reader_loop L rest messages current_message message_id_counter)
           | None \<Rightarrow> reader_loop L rest messages current_message message_id_counter))"

definition preprocess_transcript :: "pylib \<Rightarrow> string \<Rightarrow> message list" where
  "preprocess_transcript L transcript_text =
     (if transcript_text = [] then []
      else reader_loop L (splitlines transcript_text) [] None 0)"

section \<open>Stem classifier (component 2)\<close>

definition stem_keywords :: "string list" where
  "stem_keywords =
     [''who'', ''what'', ''when'', ''where'', ''why'', ''how'',
      ''which of the following'', ''choose the'', ''select the'',
      ''next best step'', ''next best line'', ''approach'', ''management'',
      ''treatment'', ''indication'', ''contraindication'', ''c/i'',
      ''risk factor'', ''cause'', ''causes'', ''except'', ''not a'', ''incorrect'',
      ''correct statement'', ''definition'', ''diagnosis'', ''diagnose'', ''differentiate'',
      ''complication'', ''complicating'', ''predictor'', ''based on'',
      ''investigation of choice'', ''most likely'', ''picture'', ''sign'',
      ''technique'', ''trial'', ''referencing'', ''parameter'', ''value'',
      ''count'', ''grading'', ''placement'', ''entry'', ''criteria'']"

text \<open>\<open>len(text.split())\<close>: the number of maximal runs of characters that are no white space.\<close>

fun count_words :: "bool \<Rightarrow> string \<Rightarrow> nat" where
  "count_words in_word [] = 0"
| "count_words in_word (c # cs) =
     (if isspace c then count_words False cs
      else (if in_word then 0 else 1) + count_words True cs)"

text \<open>\<open>text.split(':')[-1]\<close>.\<close>

definition after_last_colon :: "string \<Rightarrow> string" where
  "after_last_colon text = rev (takeWhile (\<lambda>c. c \<noteq> CHR '':'') (rev text))"

text \<open>The decision for one message, on its \<open>cleaned_text\<close>, rule by rule as in the source.\<close>

definition is_stem_text :: "string \<Rightarrow> bool" where
  "is_stem_text text =
     (if text = [] then False
      else if starts_ci ''q)'' (dropWhile isspace text) then True
      else if last text = CHR ''?'' then True
      else (let found_keyword = list_ex (\<lambda>keyword. contains keyword text) stem_keywords;
                word_count = count_words False text
            in if found_keyword \<and> word_count > 3 then True
               else if found_keyword \<and> word_count \<le> 3
                       \<and> (last text = CHR '':'' \<or> CHR '':'' \<in> set text) then True
               else if CHR '':'' \<in> set text \<and> length (strip (after_last_colon text)) < 15
               then True
               else False))"

definition identify_potential_stems :: "message list \<Rightarrow> message list" where
  "identify_potential_stems messages =
     (if messages = [] then []
      else map (\<lambda>message. message\<lparr>is_potential_stem := is_stem_text (cleaned_text message)\<rparr>)
             messages)"

section \<open>Refined grouping (component 4)\<close>

text \<open>
  The tag \<open>method\<close> of an option block is one of the strings \<open>internal\<close>, \<open>adjacent\<close> and
  \<open>similarity (n)\<close>, the last with the score printed without decimals.
\<close>

datatype assoc_method = Internal | Adjacent | Similarity nat

record option_block =
  source_message_id :: int
  option_texts :: "string list"
  assoc_method :: assoc_method

text \<open>
  An entry of the dictionary \<open>potential_questions\<close>; the field \<open>option_blocks\<close> is the
  key \<open>options\<close> of the source.
\<close>

record potential_question =
  stem_message :: message
  stem_text_only :: string
  option_blocks :: "option_block list"

datatype error = ValueError | OverflowError

text \<open>
  A Python dictionary keeps its keys in the order of their first insertion: it is a list
  of items in which every key occurs once. Assigning to a key that is present replaces
  the value in place.
\<close>

type_synonym questions_dict = "(int \<times> potential_question) list"

fun dict_set :: "('k \<times> 'v) list \<Rightarrow> 'k \<Rightarrow> 'v \<Rightarrow> ('k \<times> 'v) list" where
  "dict_set [] k v = [(k, v)]"
| "dict_set ((k', v') # kvs) k v =
     (if k' = k then (k, v) # kvs else (k', v') # dict_set kvs k v)"

definition dict_keys :: "('k \<times> 'v) list \<Rightarrow> 'k list" where
  "dict_keys d = map fst d"

text \<open>\<open>potential_questions[k]["options"].append(block)\<close>, for a key \<open>k\<close> of the dictionary.\<close>

definition append_block :: "questions_dict \<Rightarrow> int \<Rightarrow> option_block \<Rightarrow> questions_dict" where
  "append_block d k block =
     map (\<lambda>(k', q). if k' = k then (k', q\<lparr>option_blocks := option_blocks q @ [block]\<rparr>)
                     else (k', q)) d"

record grouping_state =
  potential_questions :: questions_dict
  associated_option_message_ids :: "int set"

subsection \<open>Pass 1: stems and the options inside the stem message\<close>

datatype line_section = StemSection | OptionSection

text \<open>The loop over the lines of a stem message, with \<open>stem_lines\<close>, \<open>internal_options\<close>
  and \<open>current_section\<close> as its state.\<close>

fun split_stem_lines ::
  "string list \<Rightarrow> string list \<Rightarrow> string list \<Rightarrow> line_section \<Rightarrow> string list \<times> string list" where
  "split_stem_lines [] stem_lines internal_options current_section =
     (stem_lines, internal_options)"
| "split_stem_lines (line # rest) stem_lines internal_options current_section =
     (let line_stripped = strip line in
      if line_stripped = [] \<or> only_marker_regex_match line_stripped
      then split_stem_lines rest stem_lines internal_options current_section
      else if option_marker_regex_match line_stripped
      then split_stem_lines rest stem_lines (internal_options @ [line_stripped]) OptionSection
      else if current_section = StemSection \<and> length stem_lines > 0
              \<and> length line_stripped < 80
      then (if length (last stem_lines) > 50
            then split_stem_lines rest stem_lines (internal_options @ [line_stripped]) OptionSection
            else split_stem_lines rest (stem_lines @ [line_stripped]) internal_options
                   current_section)
      else if current_section = OptionSection
      then split_stem_lines rest stem_lines (internal_options @ [line_stripped]) current_section
      else split_stem_lines rest (stem_lines @ [line_stripped]) internal_options
             current_section)"

definition stem_lines_of :: "message \<Rightarrow> string list" where
  "stem_lines_of msg =
     fst (split_stem_lines (splitlines (original_text msg)) [] [] StemSection)"

definition internal_options_of :: "message \<Rightarrow> string list" where
  "internal_options_of msg =
     snd (split_stem_lines (splitlines (original_text msg)) [] [] StemSection)"

text \<open>The entry made for a stem message, with the block of its internal options, if any.\<close>

definition stem_entry :: "message \<Rightarrow> potential_question" where
  "stem_entry msg =
     (let stem_text_only = strip (join [CHR 0x0A] (stem_lines_of msg))
      in \<lparr> stem_message = msg,
           stem_text_only = (if stem_text_only \<noteq> [] then stem_text_only
                             else strip (original_text msg)),
           option_blocks =
             (if internal_options_of msg \<noteq> []
              then [\<lparr> source_message_id = msg_id msg,
                      option_texts = internal_options_of msg,
                      assoc_method = Internal \<rparr>]
              else []) \<rparr>)"

definition pass1_step :: "grouping_state \<Rightarrow> message \<Rightarrow> grouping_state" where
  "pass1_step st msg =
     (if is_potential_stem msg
      then \<lparr> potential_questions =
               dict_set (potential_questions st) (msg_id msg) (stem_entry msg),
             associated_option_message_ids =
               (if internal_options_of msg \<noteq> []
                then insert (msg_id msg) (associated_option_message_ids st)
                else associated_option_message_ids st) \<rparr>
      else st)"

definition pass1 :: "message list \<Rightarrow> grouping_state" where
  "pass1 messages =
     foldl pass1_step \<lparr> potential_questions = [], associated_option_message_ids = {} \<rparr> messages"

subsection \<open>Pass 2: option blocks of other messages\<close>

text \<open>
  The lower bound in time. An invalid time stamp of the message is ignored; the
  subtraction of the \<open>timedelta\<close> raises \<open>OverflowError\<close> below the least \<open>datetime\<close>.
\<close>

definition min_timestamp_of :: "pylib \<Rightarrow> message \<Rightarrow> error + datetime option" where
  "min_timestamp_of L msg =
     (case timestamp msg of
        None \<Rightarrow> Inr None
      | Some ts \<Rightarrow>
          (if ts = [] then Inr None
           else case fromisoformat L ts of
                  None \<Rightarrow> Inr None
                | Some current_dt \<Rightarrow>
                    (if current_dt - TIME_SEARCH_WINDOW_MINUTES * 60000000 < 0
                     then Inl OverflowError
                     else Inr (Some (current_dt - TIME_SEARCH_WINDOW_MINUTES * 60000000)))))"

text \<open>
  The candidate stems within the window of message numbers, in the order of the
  dictionary; each is kept with its entry, which is what \<open>potential_questions[stem_id]\<close>
  gives later.
\<close>

definition window_candidates :: "int \<Rightarrow> questions_dict \<Rightarrow> questions_dict" where
  "window_candidates current_id d =
     (let min_message_id = max 0 (current_id - MESSAGE_SEARCH_WINDOW - 1)
      in filter (\<lambda>(stem_id, q). stem_id < current_id \<and> stem_id \<ge> min_message_id) d)"

text \<open>
  The filter by time stamp. The time stamp of a stem is parsed outside any \<open>try\<close>: an
  invalid one raises \<open>ValueError\<close>.
\<close>

fun timestamp_filter :: "pylib \<Rightarrow> datetime \<Rightarrow> questions_dict \<Rightarrow> error + questions_dict" where
  "timestamp_filter L min_timestamp [] = Inr []"
| "timestamp_filter L min_timestamp ((stem_id, q) # rest) =
     (case timestamp (stem_message q) of
        None \<Rightarrow> timestamp_filter L min_timestamp rest
      | Some ts \<Rightarrow>
          (if ts = [] then timestamp_filter L min_timestamp rest
           else case fromisoformat L ts of
                  None \<Rightarrow> Inl ValueError
                | Some t \<Rightarrow>
                    (case timestamp_filter L min_timestamp rest of
                       Inl e \<Rightarrow> Inl e
                     | Inr kept \<Rightarrow> Inr (if t \<ge> min_timestamp then (stem_id, q) # kept else kept))))"

definition similarity_candidates :: "pylib \<Rightarrow> message \<Rightarrow> questions_dict \<Rightarrow> error + questions_dict" where
  "similarity_candidates L msg d =
     (case min_timestamp_of L msg of
        Inl e \<Rightarrow> Inl e
      | Inr None \<Rightarrow> Inr (window_candidates (msg_id msg) d)
      | Inr (Some min_timestamp) \<Rightarrow>
          timestamp_filter L min_timestamp (window_candidates (msg_id msg) d))"

text \<open>The loop over the candidates, with \<open>best_match_stem_id\<close> and \<open>highest_score\<close>.\<close>

fun best_match :: "pylib \<Rightarrow> string \<Rightarrow> questions_dict \<Rightarrow> int option \<Rightarrow> nat \<Rightarrow> int option \<times> nat" where
  "best_match L options_preview [] best_match_stem_id highest_score =
     (best_match_stem_id, highest_score)"
| "best_match L options_preview ((stem_id, q) # rest) best_match_stem_id highest_score =
     (let final_score = token_set_ratio L options_preview (stem_text_only q)
      in if final_score > highest_score
         then best_match L options_preview rest (Some stem_id) final_score
         else best_match L options_preview rest best_match_stem_id highest_score)"

definition attach :: "grouping_state \<Rightarrow> int \<Rightarrow> option_block \<Rightarrow> grouping_state" where
  "attach st k block =
     \<lparr> potential_questions = append_block (potential_questions st) k block,
       associated_option_message_ids =
         insert (source_message_id block) (associated_option_message_ids st) \<rparr>"

text \<open>
  The choice among the candidates. The test \<open>if best_match_stem_id and ...\<close> is a test of
  truth: it fails for no stem and for the stem number 0.
\<close>

definition similarity_choice ::
  "pylib \<Rightarrow> string list \<Rightarrow> questions_dict \<Rightarrow> (int \<times> nat) option" where
  "similarity_choice L options_in_msg candidates =
     (if candidates = [] then None
      else (let options_preview = take 200 (join '' '' (take 3 options_in_msg))
            in case best_match L options_preview candidates None 0 of
                 (None, highest_score) \<Rightarrow> None
               | (Some best_match_stem_id, highest_score) \<Rightarrow>
                   (if best_match_stem_id \<noteq> 0 \<and> highest_score \<ge> SIMILARITY_THRESHOLD
                    then Some (best_match_stem_id, highest_score) else None)))"

definition similarity_search ::
  "pylib \<Rightarrow> message \<Rightarrow> string list \<Rightarrow> grouping_state \<Rightarrow> error + grouping_state" where
  "similarity_search L msg options_in_msg st =
     (case similarity_candidates L msg (potential_questions st) of
        Inl e \<Rightarrow> Inl e
      | Inr candidates \<Rightarrow>
          (case similarity_choice L options_in_msg candidates of
             None \<Rightarrow> Inr st
           | Some (best_match_stem_id, highest_score) \<Rightarrow>
               Inr (attach st best_match_stem_id
                      \<lparr> source_message_id = msg_id msg, option_texts = options_in_msg,
                        assoc_method = Similarity highest_score \<rparr>)))"

text \<open>One round of the second loop; \<open>prev\<close> is \<open>messages[i-1]\<close>, absent for the first message.\<close>

definition pass2_step ::
  "pylib \<Rightarrow> message option \<Rightarrow> message \<Rightarrow> grouping_state \<Rightarrow> error + grouping_state" where
  "pass2_step L prev msg st =
     (if is_potential_stem msg \<or> msg_id msg \<in> associated_option_message_ids st then Inr st
      else (let options_in_msg = extract_options_from_text (original_text msg)
            in if options_in_msg = [] then Inr st
               else if (case prev of
                          None \<Rightarrow> False
                        | Some p \<Rightarrow> msg_id p \<in> set (dict_keys (potential_questions st)))
               then Inr (attach st (msg_id (the prev))
                           \<lparr> source_message_id = msg_id msg, option_texts = options_in_msg,
                             assoc_method = Adjacent \<rparr>)
               else similarity_search L msg options_in_msg st))"

fun pass2 ::
  "pylib \<Rightarrow> message option \<Rightarrow> message list \<Rightarrow> grouping_state \<Rightarrow> error + grouping_state" where
  "pass2 L prev [] st = Inr st"
| "pass2 L prev (msg # rest) st =
     (case pass2_step L prev msg st of
        Inl e \<Rightarrow> Inl e
      | Inr st' \<Rightarrow> pass2 L (Some msg) rest st')"

subsection \<open>Pass 3: consolidation\<close>

text \<open>One element of the result.\<close>

record collated_question =
  stem_id :: int
  stem_text :: string
  options :: "string list"

fun unique_loop :: "string list \<Rightarrow> string list \<Rightarrow> string set \<Rightarrow> string list" where
  "unique_loop [] unique_options seen_options = unique_options"
| "unique_loop (opt # rest) unique_options seen_options =
     (let opt_lower = lower opt
      in if opt_lower \<notin> seen_options
         then unique_loop rest (unique_options @ [opt]) (insert opt_lower seen_options)
         else unique_loop rest unique_options seen_options)"

definition cleaned_options_of :: "potential_question \<Rightarrow> string list" where
  "cleaned_options_of q_data =
     (let all_option_texts = concat (map option_texts (option_blocks q_data))
      in filter (\<lambda>cleaned. cleaned \<noteq> [])
           (map (\<lambda>opt. strip (option_marker_regex_sub opt)) all_option_texts))"

definition unique_options_of :: "potential_question \<Rightarrow> string list" where
  "unique_options_of q_data = unique_loop (cleaned_options_of q_data) [] {}"

text \<open>
  The loop over the sorted stem numbers. Every key occurs once in the dictionary, so the
  entries looked up under the sorted keys are the items sorted by key.
\<close>

fun pass3_loop ::
  "questions_dict \<Rightarrow> collated_question list \<Rightarrow> int set \<Rightarrow> collated_question list" where
  "pass3_loop [] final_collated_questions processed_stem_ids = final_collated_questions"
| "pass3_loop ((sid, q_data) # rest) final_collated_questions processed_stem_ids =
     (if sid \<in> processed_stem_ids
      then pass3_loop rest final_collated_questions processed_stem_ids
      else if stem_text_only q_data \<noteq> [] \<and> unique_options_of q_data \<noteq> []
      then pass3_loop rest
             (final_collated_questions @
                [\<lparr> stem_id = sid, stem_text = stem_text_only q_data,
                   options = unique_options_of q_data \<rparr>])
             (insert sid processed_stem_ids)
      else pass3_loop rest final_collated_questions processed_stem_ids)"

definition sorted_items :: "questions_dict \<Rightarrow> questions_dict" where
  "sorted_items d = sort_key fst d"

definition pass3 :: "questions_dict \<Rightarrow> collated_question list" where
  "pass3 d = pass3_loop (sorted_items d) [] {}"

definition refine_grouping_with_similarity ::
  "pylib \<Rightarrow> message list \<Rightarrow> error + collated_question list" where
  "refine_grouping_with_similarity L messages =
     (if messages = [] then Inr []
      else case pass2 L None messages (pass1 messages) of
             Inl e \<Rightarrow> Inl e
           | Inr st \<Rightarrow> Inr (pass3 (potential_questions st)))"

text \<open>The three stages in a row.\<close>

definition pipeline :: "pylib \<Rightarrow> string \<Rightarrow> error + collated_question list" where
  "pipeline L transcript_text =
     refine_grouping_with_similarity L
       (identify_potential_stems (preprocess_transcript L transcript_text))"

section \<open>Combination of the chunk results (processing.py)\<close>

text \<open>
  The last loop of \<open>collate_questions_from_transcript\<close>, the path through the language
  model: the questions of all chunks are combined, and a question whose stem text,
  lower-cased and stripped, was seen before is skipped. A question is the pair of its
  \<open>stem_text\<close> and its \<open>options\<close>.
\<close>

fun combine_loop ::
  "(string \<times> string list) list \<Rightarrow> (string \<times> string list) list \<Rightarrow> string set
     \<Rightarrow> (string \<times> string list) list" where
  "combine_loop [] final_questions seen_stems = final_questions"
| "combine_loop (q # rest) final_questions seen_stems =
     (let norm_stem = strip (lower (fst q))
      in if norm_stem \<notin> seen_stems
         then combine_loop rest (final_questions @ [q]) (insert norm_stem seen_stems)
         else combine_loop rest final_questions seen_stems)"

definition combine_chunk_results :: "(string \<times> string list) list \<Rightarrow> (string \<times> string list) list" where
  "combine_chunk_results all_collated_questions = combine_loop all_collated_questions [] {}"

section \<open>Reference definitions\<close>

text \<open>
  Keeping the first occurrence of every key: what de-duplication by a key means. The two
  de-duplication loops of the source are compared with it.
\<close>

fun keep_first :: "('a \<Rightarrow> 'k) \<Rightarrow> 'k set \<Rightarrow> 'a list \<Rightarrow> 'a list" where
  "keep_first key seen [] = []"
| "keep_first key seen (x # xs) =
     (if key x \<in> seen then keep_first key seen xs
      else x # keep_first key (insert (key x) seen) xs)"

text \<open>The option blocks attached to all stems, in the order of the dictionary.\<close>

definition attached_blocks :: "questions_dict \<Rightarrow> option_block list" where
  "attached_blocks d = concat (map (\<lambda>(k, q). option_blocks q) d)"

text \<open>The collated question that pass 3 makes of an entry, and the test for making it.\<close>

definition collate :: "int \<times> potential_question \<Rightarrow> collated_question" where
  "collate = (\<lambda>(k, q). \<lparr> stem_id = k, stem_text = stem_text_only q, options = unique_options_of q \<rparr>)"

definition emitted :: "int \<times> potential_question \<Rightarrow> bool" where
  "emitted = (\<lambda>(k, q). stem_text_only q \<noteq> [] \<and> unique_options_of q \<noteq> [])"

text \<open>
  Invariants of the two passes. After pass 1 an entry holds at most the block of its own
  message; throughout, the keys of the dictionary are distinct and the sources of the
  attached blocks are among the associated message numbers.
\<close>

definition own_blocks :: "questions_dict \<Rightarrow> bool" where
  "own_blocks d \<longleftrightarrow>
     (\<forall>(k, q)\<in>set d. length (option_blocks q) \<le> 1
        \<and> (\<forall>b\<in>set (option_blocks q). source_message_id b = k))"

definition pass1_inv :: "grouping_state \<Rightarrow> bool" where
  "pass1_inv st \<longleftrightarrow>
     distinct (dict_keys (potential_questions st)) \<and> own_blocks (potential_questions st)
     \<and> source_message_id ` set (attached_blocks (potential_questions st))
         \<subseteq> associated_option_message_ids st"

definition pass2_inv :: "grouping_state \<Rightarrow> bool" where
  "pass2_inv st \<longleftrightarrow>
     distinct (dict_keys (potential_questions st))
     \<and> distinct (map source_message_id (attached_blocks (potential_questions st)))
     \<and> source_message_id ` set (attached_blocks (potential_questions st))
         \<subseteq> associated_option_message_ids st"

text \<open>The key of the de-duplication in \<open>processing.py\<close>: the stem text, lower-cased and stripped.\<close>

definition norm_stem :: "string \<times> string list \<Rightarrow> string" where
  "norm_stem q = strip (lower (fst q))"

section \<open>Concrete transcripts and library values\<close>

text \<open>Which message was attached to which stem, and how: a view of the state after pass 2.\<close>

definition associations :: "grouping_state \<Rightarrow> (int \<times> (int \<times> assoc_method) list) list" where
  "associations st =
     map (\<lambda>(k, q). (k, map (\<lambda>b. (source_message_id b, assoc_method b)) (option_blocks q)))
       (potential_questions st)"

definition classified :: "pylib \<Rightarrow> string \<Rightarrow> message list" where
  "classified L transcript_text = identify_potential_stems (preprocess_transcript L transcript_text)"

text \<open>A library in which no time stamp parses and every similarity is 70.\<close>

definition lib_untimed :: pylib where
  "lib_untimed = \<lparr> strptime = (\<lambda>s fmt. None), isoformat = (\<lambda>t. []),
                    fromisoformat = (\<lambda>s. None), token_set_ratio = (\<lambda>a b. 70) \<rparr>"

text \<open>
  A library that reads the two time stamps 10:00 and 10:01 of 1 January 2024 in the first
  format of the reader, and in which every similarity is 70.
\<close>

definition lib_timed :: pylib where
  "lib_timed =
     \<lparr> strptime = (\<lambda>s fmt. if fmt = ''%d/%m/%y, %H:%M'' \<and> s = ''01/01/24, 10:00''
                            then Some 63839700000000000
                            else if fmt = ''%d/%m/%y, %H:%M'' \<and> s = ''01/01/24, 10:01''
                            then Some 63839700060000000 else None),
       isoformat = (\<lambda>t. if t = 63839700000000000 then ''2024-01-01T10:00:00''
                         else if t = 63839700060000000 then ''2024-01-01T10:01:00'' else []),
       fromisoformat = (\<lambda>s. if s = ''2024-01-01T10:00:00'' then Some 63839700000000000
                             else if s = ''2024-01-01T10:01:00'' then Some 63839700060000000
                             else None),
       token_set_ratio = (\<lambda>a b. 70) \<rparr>"

text \<open>Scenario A of the specification.\<close>

definition scenario_A :: string where
  "scenario_A =
     ''01/01/24, 10:00 - Alice: What is the capital of France?\<newline>01/01/24, 10:01 - Bob: A. Paris\<newline>B. Lyon''"

definition stem_A :: "pylib \<Rightarrow> message" where
  "stem_A L =
     (new_message L 1 ''01/01/24, 10:00'' (Some ''Alice: '') ''What is the capital of France?'')
       \<lparr>is_potential_stem := True\<rparr>"

definition reply_A :: "pylib \<Rightarrow> message" where
  "reply_A L =
     append_text (new_message L 2 ''01/01/24, 10:01'' (Some ''Bob: '') ''A. Paris'') ''B. Lyon''"

text \<open>A stem followed by a line without time stamp that ends in \<open>left\<close>.\<close>

definition transcript_left :: string where
  "transcript_left = ''01/01/24, 10:00 - Alice: What is the capital of France?\<newline>Bob left''"

text \<open>
  Seventeen messages: a stem, a message of seven lines \<open>k\<close> (no stem, and no option
  block: it has more than six lines and no marker), fourteen messages \<open>ok\<close>, and an
  option block. The similarity is 70 between the option block and the stem and 0 elsewhere.
\<close>

definition transcript_far :: string where
  "transcript_far =
     ''01/01/24, 10:00 - Alice: What is the capital of France?\<newline>''
     @ ''01/01/24, 10:00 - Bob: k\<newline>k\<newline>k\<newline>k\<newline>k\<newline>k\<newline>k\<newline>''
     @ concat (replicate 14 ''01/01/24, 10:00 - Bob: ok\<newline>'')
     @ ''01/01/24, 10:01 - Carol: A. Paris''"

definition lib_far :: pylib where
  "lib_far = \<lparr> strptime = (\<lambda>s fmt. None), isoformat = (\<lambda>t. []),
                fromisoformat = (\<lambda>s. None),
                token_set_ratio = (\<lambda>a b. if a = ''A. Paris'' \<and> b = ''What is the capital of France?''
                                         then 70 else 0) \<rparr>"

definition far_message :: "int \<Rightarrow> string \<Rightarrow> string \<Rightarrow> string \<Rightarrow> bool \<Rightarrow> message" where
  "far_message n ts u text stem =
     \<lparr> msg_id = n, timestamp_str = Some ts, timestamp = None, user = u,
       original_text = text, cleaned_text = lower text, is_potential_stem = stem \<rparr>"

definition far_messages :: "message list" where
  "far_messages =
     [far_message 1 ''01/01/24, 10:00'' ''Alice'' ''What is the capital of France?'' True,
      far_message 2 ''01/01/24, 10:00'' ''Bob'' ''k\<newline>k\<newline>k\<newline>k\<newline>k\<newline>k\<newline>k'' False]
     @ map (\<lambda>n. far_message n ''01/01/24, 10:00'' ''Bob'' ''ok'' False) [3..16]
     @ [far_message 17 ''01/01/24, 10:01'' ''Carol'' ''A. Paris'' False]"

text \<open>
  A stem on a first line without time stamp, a message of seven lines \<open>k\<close>, and an
  option block with a time stamp; then the messages that the reader and the classifier
  make of it with the library \<open>lib_timed\<close>.
\<close>

definition transcript_untimed_stem :: string where
  "transcript_untimed_stem =
     ''What is the capital of France?\<newline>01/01/24, 10:00 - Bob: k\<newline>k\<newline>k\<newline>k\<newline>k\<newline>k\<newline>k\<newline>01/01/24, 10:01 - Carol: A. Paris''"

definition timed_message :: "int \<Rightarrow> string \<Rightarrow> string \<Rightarrow> string \<Rightarrow> string \<Rightarrow> bool \<Rightarrow> message" where
  "timed_message n ts stamp u text stem =
     \<lparr> msg_id = n, timestamp_str = Some ts, timestamp = Some stamp, user = u,
       original_text = text, cleaned_text = lower text, is_potential_stem = stem \<rparr>"

definition untimed_messages :: "message list" where
  "untimed_messages =
     [\<lparr> msg_id = 1, timestamp_str = None, timestamp = None, user = ''Unknown'',
        original_text = ''What is the capital of France?'',
        cleaned_text = ''what is the capital of france?'', is_potential_stem = True \<rparr>,
      timed_message 2 ''01/01/24, 10:00'' ''2024-01-01T10:00:00'' ''Bob''
        ''k\<newline>k\<newline>k\<newline>k\<newline>k\<newline>k\<newline>k'' False,
      timed_message 3 ''01/01/24, 10:01'' ''2024-01-01T10:01:00'' ''Carol'' ''A. Paris'' False]"

text \<open>
  A dictionary with a stem without time stamp and a stem of 10:00, and an option block of
  10:01 in message 4.
\<close>

definition timed_dict :: questions_dict where
  "timed_dict =
     [(1, \<lparr> stem_message = far_message 1 ''x'' ''Alice'' ''What is the capital of France?'' True,
            stem_text_only = ''What is the capital of France?'', option_blocks = [] \<rparr>),
      (2, \<lparr> stem_message = timed_message 2 ''01/01/24, 10:00'' ''2024-01-01T10:00:00'' ''Alice''
                             ''What is the capital of Spain?'' True,
            stem_text_only = ''What is the capital of Spain?'', option_blocks = [] \<rparr>)]"

definition timed_block :: message where
  "timed_block = timed_message 4 ''01/01/24, 10:01'' ''2024-01-01T10:01:00'' ''Carol'' ''A. Paris'' False"



text \<open>The same stem twice, each time followed by an option block.\<close>

definition transcript_twice :: string where
  "transcript_twice =
     ''01/01/24, 10:00 - Alice: What is the capital of France?\<newline>01/01/24, 10:00 - Bob: A. Paris\<newline>01/01/24, 10:01 - Alice: What is the capital of France?\<newline>01/01/24, 10:01 - Bob: B. Lyon''"

definition twice_messages :: "message list" where
  "twice_messages =
     [far_message 1 ''01/01/24, 10:00'' ''Alice'' ''What is the capital of France?'' True,
      far_message 2 ''01/01/24, 10:00'' ''Bob'' ''A. Paris'' False,
      far_message 3 ''01/01/24, 10:01'' ''Alice'' ''What is the capital of France?'' True,
      far_message 4 ''01/01/24, 10:01'' ''Bob'' ''B. Lyon'' False]"

definition twice_out :: "collated_question list" where
  "twice_out =
     [\<lparr> stem_id = 1, stem_text = ''What is the capital of France?'', options = [''Paris''] \<rparr>,
      \<lparr> stem_id = 3, stem_text = ''What is the capital of France?'', options = [''Lyon''] \<rparr>]"

text \<open>A stem whose only line starts with an option marker.\<close>

definition transcript_fallback :: string where
  "transcript_fallback = ''01/01/24, 10:00 - Alice: A. Paris or Lyon?''"

definition fallback_messages :: "message list" where
  "fallback_messages = [far_message 1 ''01/01/24, 10:00'' ''Alice'' ''A. Paris or Lyon?'' True]"

section \<open>Facts about the text primitives\<close>

lemma strip_eq_Nil_iff: "strip s = [] \<longleftrightarrow> (\<forall>c\<in>set s. isspace c)"
proof -
  have "(\<forall>x\<in>set (dropWhile isspace s). isspace x) \<longleftrightarrow> dropWhile isspace s = []"
  proof
    assume h: "\<forall>x\<in>set (dropWhile isspace s). isspace x"
    show "dropWhile isspace s = []"
    proof (rule ccontr)
      assume ne: "dropWhile isspace s \<noteq> []"
      then have "\<not> isspace (hd (dropWhile isspace s))"
        by (rule hd_dropWhile)
      moreover have "hd (dropWhile isspace s) \<in> set (dropWhile isspace s)"
        using ne by simp
      ultimately show False
        using h by blast
    qed
  qed (auto dest: set_dropWhileD)
  then show ?thesis
    by (simp add: strip_def lstrip_def rstrip_def dropWhile_eq_Nil_conv)
qed

lemma hd_lstrip: "lstrip s \<noteq> [] \<Longrightarrow> \<not> isspace (hd (lstrip s))"
  unfolding lstrip_def by (metis hd_dropWhile)

lemma hd_strip: assumes "strip s \<noteq> []" shows "\<not> isspace (hd (strip s))"
proof -
  have ne: "lstrip s \<noteq> []"
    using assms by (auto simp: strip_def rstrip_def)
  obtain c cs where l: "lstrip s = c # cs"
    using ne by (cases "lstrip s") auto
  have c: "\<not> isspace c"
    using hd_lstrip [OF ne] l by simp
  have "rev (dropWhile isspace (rev cs @ [c])) \<noteq> []"
    using assms l by (simp add: strip_def rstrip_def)
  have "hd (rev (dropWhile isspace (rev cs @ [c]))) = c"
  proof (cases "dropWhile isspace (rev cs) = []")
    case True
    then have "dropWhile isspace (rev cs @ [c]) = [c]"
      using c by (simp add: dropWhile_append dropWhile_eq_Nil_conv)
    then show ?thesis by simp
  next
    case False
    then have "dropWhile isspace (rev cs @ [c]) = dropWhile isspace (rev cs) @ [c]"
      by (metis dropWhile_append1 dropWhile_eq_Nil_conv)
    then show ?thesis by simp
  qed
  then show ?thesis
    using c l by (simp add: strip_def rstrip_def)
qed

lemma isspace_newline: "isspace (CHR 0x0A)"
  by (simp add: isspace_def code_def)

text \<open>
  Every group of \<open>line_regex\<close> but the last is optional, and the last is \<open>(.+)\<close>: a
  stripped line that is not empty always matches.
\<close>

lemma user_and_text_matches: "s \<noteq> [] \<Longrightarrow> hd s \<noteq> CHR 0x0A \<Longrightarrow> user_and_text s \<noteq> None"
  by (auto simp: user_and_text_def split: option.splits)

lemma line_regex_always_matches:
  assumes "strip raw \<noteq> []"
  shows "line_regex (strip raw) \<noteq> None"
proof -
  have "hd (strip raw) \<noteq> CHR 0x0A"
    using hd_strip [OF assms] isspace_newline by metis
  then have "user_and_text (strip raw) \<noteq> None"
    using assms by (rule user_and_text_matches [rotated])
  then show ?thesis
    by (auto simp: line_regex_def split: option.splits)
qed

section \<open>Facts about de-duplication and the dictionary\<close>

lemma keep_first_keys: "key ` set (keep_first key seen xs) = key ` set xs - seen"
  by (induction xs arbitrary: seen) auto

lemma keep_first_subset: "set (keep_first key seen xs) \<subseteq> set xs"
  by (induction xs arbitrary: seen) auto

lemma keep_first_distinct: "distinct (map key (keep_first key seen xs))"
proof (induction xs arbitrary: seen)
  case Nil
  show ?case by simp
next
  case (Cons x xs)
  have "key x \<notin> key ` set (keep_first key (insert (key x) seen) xs)"
    unfolding keep_first_keys by simp
  with Cons show ?case by simp
qed

lemma keep_first_subseq: "subseq (keep_first key seen xs) xs"
  by (induction xs arbitrary: seen) auto

lemma keep_first_is_first:
  "x \<in> set (keep_first key seen xs) \<Longrightarrow> find (\<lambda>y. key y = key x) xs = Some x"
proof (induction xs arbitrary: seen)
  case Nil
  then show ?case by simp
next
  case (Cons a xs)
  show ?case
  proof (cases "key a \<in> seen")
    case True
    then have mem: "x \<in> set (keep_first key seen xs)"
      using Cons.prems by simp
    then have "key x \<in> key ` set xs - seen"
      using keep_first_keys [of key seen xs] by blast
    then have "key a \<noteq> key x"
      using True by auto
    then show ?thesis
      using Cons.IH [OF mem] by simp
  next
    case False
    show ?thesis
    proof (cases "x = a")
      case True
      then show ?thesis by simp
    next
      case neq: False
      then have mem: "x \<in> set (keep_first key (insert (key a) seen) xs)"
        using Cons.prems False by simp
      then have "key x \<in> key ` set xs - insert (key a) seen"
        using keep_first_keys [of key "insert (key a) seen" xs] by blast
      then have "key a \<noteq> key x"
        by auto
      then show ?thesis
        using Cons.IH [OF mem] by simp
    qed
  qed
qed

lemma keep_first_Nil_iff: "keep_first key {} xs = [] \<longleftrightarrow> xs = []"
  by (cases xs) auto

lemma unique_loop_keep_first: "unique_loop xs acc seen = acc @ keep_first lower seen xs"
  by (induction xs arbitrary: acc seen) (auto simp: Let_def)

lemma combine_loop_keep_first:
  "combine_loop qs acc seen = acc @ keep_first (\<lambda>q. strip (lower (fst q))) seen qs"
  by (induction qs arbitrary: acc seen) (auto simp: Let_def)

lemma dict_keys_dict_set: "set (dict_keys (dict_set d k v)) = insert k (set (dict_keys d))"
proof (induction d)
  case Nil
  show ?case by (simp add: dict_keys_def)
next
  case (Cons a d)
  obtain k' v' where a: "a = (k', v')" by (cases a)
  show ?case
  proof (cases "k' = k")
    case True
    then show ?thesis by (simp add: a dict_keys_def)
  next
    case False
    then show ?thesis
      using Cons by (simp add: a dict_keys_def insert_commute)
  qed
qed

lemma distinct_dict_set: "distinct (dict_keys d) \<Longrightarrow> distinct (dict_keys (dict_set d k v))"
proof (induction d)
  case Nil
  show ?case by (simp add: dict_keys_def)
next
  case (Cons a d)
  obtain k' v' where a: "a = (k', v')" by (cases a)
  have "set (map fst (dict_set d k v)) = insert k (set (map fst d))"
    using dict_keys_dict_set [of d k v] by (simp add: dict_keys_def)
  with Cons a show ?case
    by (auto simp: dict_keys_def)
qed

lemma set_dict_set:
  "(k', q) \<in> set (dict_set d k v) \<Longrightarrow> (k' = k \<and> q = v) \<or> (k', q) \<in> set d"
  by (induction d) (auto split: if_splits)

lemma dict_keys_append_block: "dict_keys (append_block d k b) = dict_keys d"
  by (induction d) (auto simp: dict_keys_def append_block_def)

lemma append_block_absent: "k \<notin> set (dict_keys d) \<Longrightarrow> append_block d k b = d"
  by (induction d) (auto simp: dict_keys_def append_block_def)

lemma sorted_items_set: "set (sorted_items d) = set d"
  by (simp add: sorted_items_def)

lemma sorted_items_sorted: "sorted (map fst (sorted_items d))"
  by (simp add: sorted_items_def)

lemma sorted_items_distinct: "distinct (map fst (sorted_items d)) = distinct (map fst d)"
  by (simp add: distinct_map sorted_items_def)

lemma pass3_loop_distinct:
  "distinct (map fst items) \<Longrightarrow> fst ` set items \<inter> processed = {} \<Longrightarrow>
   pass3_loop items acc processed = acc @ map collate (filter emitted items)"
proof (induction items arbitrary: acc processed)
  case Nil
  show ?case by simp
next
  case (Cons a items)
  obtain k q where a: "a = (k, q)" by (cases a)
  have k: "k \<notin> processed" "k \<notin> fst ` set items" "distinct (map fst items)"
    using Cons.prems a by auto
  have disj: "fst ` set items \<inter> insert k processed = {}" "fst ` set items \<inter> processed = {}"
    using Cons.prems k by auto
  show ?case
    using k Cons.IH [OF k(3) disj(1)] Cons.IH [OF k(3) disj(2)]
    by (simp add: a collate_def emitted_def)
qed

lemma pass3_distinct:
  "distinct (dict_keys d) \<Longrightarrow> pass3 d = map collate (filter emitted (sorted_items d))"
  unfolding pass3_def dict_keys_def
  using pass3_loop_distinct [of "sorted_items d" "{}" "[]"] sorted_items_distinct [of d]
  by simp

section \<open>Invariants of the two passes\<close>

lemma set_attached_blocks:
  "set (attached_blocks d) = (\<Union>(k, q)\<in>set d. set (option_blocks q))"
  by (auto simp: attached_blocks_def)

lemma attached_blocks_Cons:
  "attached_blocks ((k, q) # d) = option_blocks q @ attached_blocks d"
  by (simp add: attached_blocks_def)

lemma own_blocks_sources_subset:
  "own_blocks d \<Longrightarrow> source_message_id ` set (attached_blocks d) \<subseteq> set (dict_keys d)"
  by (fastforce simp: own_blocks_def set_attached_blocks dict_keys_def)

lemma own_blocks_distinct:
  "distinct (dict_keys d) \<Longrightarrow> own_blocks d \<Longrightarrow>
   distinct (map source_message_id (attached_blocks d))"
proof (induction d)
  case Nil
  show ?case by (simp add: attached_blocks_def)
next
  case (Cons a d)
  obtain k q where a: "a = (k, q)" by (cases a)
  have own: "own_blocks d"
    using Cons.prems(2) by (simp add: own_blocks_def)
  have dist: "distinct (dict_keys d)" and k: "k \<notin> set (dict_keys d)"
    using Cons.prems(1) by (simp_all add: a dict_keys_def)
  have len: "length (option_blocks q) \<le> 1"
    and src: "\<forall>b\<in>set (option_blocks q). source_message_id b = k"
    using Cons.prems(2) by (simp_all add: a own_blocks_def)
  have "distinct (map source_message_id (option_blocks q))"
    using len by (cases "option_blocks q") auto
  moreover have "source_message_id ` set (option_blocks q)
      \<inter> source_message_id ` set (attached_blocks d) = {}"
    using src k own_blocks_sources_subset [OF own] by auto
  ultimately show ?case
    using Cons.IH [OF dist own] by (simp add: a attached_blocks_Cons)
qed

lemma option_blocks_stem_entry:
  "option_blocks (stem_entry msg) =
     (if internal_options_of msg \<noteq> []
      then [\<lparr> source_message_id = msg_id msg, option_texts = internal_options_of msg,
              assoc_method = Internal \<rparr>]
      else [])"
  by (simp add: stem_entry_def Let_def)

lemma pass1_step_inv:
  assumes "pass1_inv st"
  shows "pass1_inv (pass1_step st msg)"
proof (cases "is_potential_stem msg")
  case False
  then show ?thesis
    using assms by (simp add: pass1_step_def)
next
  case True
  let ?d = "potential_questions st"
  let ?d' = "dict_set ?d (msg_id msg) (stem_entry msg)"
  have entries: "\<And>k q. (k, q) \<in> set ?d' \<Longrightarrow> (k = msg_id msg \<and> q = stem_entry msg) \<or> (k, q) \<in> set ?d"
    by (rule set_dict_set)
  have "distinct (dict_keys ?d')"
    using assms by (simp add: pass1_inv_def distinct_dict_set)
  moreover have "own_blocks ?d'"
    unfolding own_blocks_def
  proof (intro ballI, clarify)
    fix k q
    assume "(k, q) \<in> set ?d'"
    then consider "k = msg_id msg" "q = stem_entry msg" | "(k, q) \<in> set ?d"
      using entries by blast
    then show "length (option_blocks q) \<le> 1
        \<and> (\<forall>b\<in>set (option_blocks q). source_message_id b = k)"
    proof cases
      case 1
      then show ?thesis by (simp add: option_blocks_stem_entry)
    next
      case 2
      then show ?thesis
        using assms by (auto simp: pass1_inv_def own_blocks_def)
    qed
  qed
  moreover have "source_message_id ` set (attached_blocks ?d')
      \<subseteq> associated_option_message_ids (pass1_step st msg)"
  proof
    fix s
    assume "s \<in> source_message_id ` set (attached_blocks ?d')"
    then obtain k q b where kq: "(k, q) \<in> set ?d'" and b: "b \<in> set (option_blocks q)"
      and s: "s = source_message_id b"
      by (auto simp: set_attached_blocks)
    from kq consider "k = msg_id msg" "q = stem_entry msg" | "(k, q) \<in> set ?d"
      using entries by blast
    then show "s \<in> associated_option_message_ids (pass1_step st msg)"
    proof cases
      case 1
      then show ?thesis
        using b s True by (auto simp: option_blocks_stem_entry pass1_step_def split: if_splits)
    next
      case 2
      then have "s \<in> associated_option_message_ids st"
        using assms b s by (auto simp: pass1_inv_def set_attached_blocks)
      then show ?thesis
        using True by (simp add: pass1_step_def)
    qed
  qed
  ultimately show ?thesis
    using True by (simp add: pass1_inv_def pass1_step_def)
qed

lemma foldl_pass1_inv: "pass1_inv st \<Longrightarrow> pass1_inv (foldl pass1_step st messages)"
  by (induction messages arbitrary: st) (simp_all add: pass1_step_inv)

lemma pass1_inv_pass1: "pass1_inv (pass1 messages)"
  unfolding pass1_def
  by (rule foldl_pass1_inv) (simp add: pass1_inv_def dict_keys_def own_blocks_def attached_blocks_def)

lemma pass1_inv_imp_pass2_inv: "pass1_inv st \<Longrightarrow> pass2_inv st"
  by (simp add: pass1_inv_def pass2_inv_def own_blocks_distinct)

lemma append_block_Cons:
  "append_block ((k', q) # d) k b =
     (if k' = k then (k', q\<lparr>option_blocks := option_blocks q @ [b]\<rparr>) else (k', q))
     # append_block d k b"
  by (simp add: append_block_def)

lemma append_block_set:
  "set (attached_blocks (append_block d k b)) \<subseteq> insert b (set (attached_blocks d))"
proof (induction d)
  case Nil
  show ?case by (simp add: append_block_def attached_blocks_def)
next
  case (Cons a d)
  obtain k' q where a: "a = (k', q)" by (cases a)
  have "set (attached_blocks (append_block (a # d) k b))
      \<subseteq> insert b (set (option_blocks q)) \<union> set (attached_blocks (append_block d k b))"
    unfolding a append_block_Cons by (simp add: attached_blocks_Cons subset_iff)
  also have "\<dots> \<subseteq> insert b (set (option_blocks q)) \<union> insert b (set (attached_blocks d))"
    using Cons.IH by blast
  also have "\<dots> = insert b (set (attached_blocks (a # d)))"
    unfolding a attached_blocks_Cons by auto
  finally show ?case .
qed

lemma distinct_map_append3:
  "distinct (map f (xs @ [b] @ ys)) \<longleftrightarrow>
     distinct (map f xs) \<and> distinct (map f ys) \<and> f b \<notin> f ` set xs \<and> f b \<notin> f ` set ys
     \<and> f ` set xs \<inter> f ` set ys = {}"
  by (simp add: conj_ac)

lemma distinct_map_append2:
  "distinct (map f (xs @ ys)) \<longleftrightarrow>
     distinct (map f xs) \<and> distinct (map f ys) \<and> f ` set xs \<inter> f ` set ys = {}"
  by simp

lemma disjoint_subset_insert: "B' \<subseteq> insert x B \<Longrightarrow> A \<inter> B = {} \<Longrightarrow> x \<notin> A \<Longrightarrow> A \<inter> B' = {}"
  by blast

lemma image_subset_insert: "X \<subseteq> insert b Y \<Longrightarrow> f ` X \<subseteq> insert (f b) (f ` Y)"
  by blast

lemma append_block_distinct:
  assumes "distinct (dict_keys d)"
    and "source_message_id b \<notin> source_message_id ` set (attached_blocks d)"
    and "distinct (map source_message_id (attached_blocks d))"
  shows "distinct (map source_message_id (attached_blocks (append_block d k b)))"
  using assms
proof (induction d)
  case Nil
  show ?case by (simp add: append_block_def attached_blocks_def)
next
  case (Cons a d)
  obtain k' q where a: "a = (k', q)" by (cases a)
  have dist: "distinct (dict_keys d)" and k': "k' \<notin> set (dict_keys d)"
    using Cons.prems(1) by (simp_all add: a dict_keys_def)
  have fresh: "source_message_id b \<notin> source_message_id ` set (option_blocks q)
      \<and> source_message_id b \<notin> source_message_id ` set (attached_blocks d)"
    using Cons.prems(2) unfolding a attached_blocks_Cons by (simp add: image_Un)
  have parts: "distinct (map source_message_id (option_blocks q))
      \<and> distinct (map source_message_id (attached_blocks d))
      \<and> source_message_id ` set (option_blocks q)
            \<inter> source_message_id ` set (attached_blocks d) = {}"
    using Cons.prems(3) unfolding a attached_blocks_Cons distinct_map_append2 .
  show ?case
  proof (cases "k' = k")
    case True
    have "append_block d k b = d"
      using k' True by (simp add: append_block_absent)
    then have "attached_blocks (append_block (a # d) k b)
        = option_blocks q @ [b] @ attached_blocks d"
      unfolding a append_block_Cons using True by (simp add: attached_blocks_Cons)
    then show ?thesis
      using fresh parts by (simp only: distinct_map_append3 simp_thms)
  next
    case False
    then have eq: "attached_blocks (append_block (a # d) k b)
        = option_blocks q @ attached_blocks (append_block d k b)"
      unfolding a append_block_Cons by (simp add: attached_blocks_Cons)
    have sub: "source_message_id ` set (attached_blocks (append_block d k b))
        \<subseteq> insert (source_message_id b) (source_message_id ` set (attached_blocks d))"
      using append_block_set [of d k b] by (rule image_subset_insert)
    have "source_message_id ` set (option_blocks q)
        \<inter> source_message_id ` set (attached_blocks (append_block d k b)) = {}"
      by (rule disjoint_subset_insert [OF sub]) (use parts fresh in simp_all)
    moreover have "distinct (map source_message_id (attached_blocks (append_block d k b)))"
      using Cons.IH dist fresh parts by blast
    ultimately show ?thesis
      using parts by (simp only: eq distinct_map_append2 simp_thms)
  qed
qed

lemma attach_inv:
  assumes "pass2_inv st" and "source_message_id b \<notin> associated_option_message_ids st"
  shows "pass2_inv (attach st k b)"
proof -
  let ?d = "potential_questions st"
  have dist: "distinct (dict_keys ?d)"
    and dsrc: "distinct (map source_message_id (attached_blocks ?d))"
    and sub: "source_message_id ` set (attached_blocks ?d) \<subseteq> associated_option_message_ids st"
    using assms(1) by (simp_all add: pass2_inv_def)
  have fresh: "source_message_id b \<notin> source_message_id ` set (attached_blocks ?d)"
    using sub assms(2) by auto
  have "distinct (dict_keys (append_block ?d k b))"
    using dist by (simp add: dict_keys_append_block)
  moreover have "distinct (map source_message_id (attached_blocks (append_block ?d k b)))"
    using append_block_distinct [OF dist fresh dsrc] .
  moreover have "source_message_id ` set (attached_blocks (append_block ?d k b))
      \<subseteq> insert (source_message_id b) (associated_option_message_ids st)"
    using image_subset_insert [OF append_block_set [of ?d k b], of source_message_id] sub
    by (meson insert_mono subset_trans)
  ultimately show ?thesis
    by (simp add: pass2_inv_def attach_def)
qed

lemma similarity_search_cases:
  assumes "similarity_search L msg opts st = Inr st'"
  shows "st' = st \<or> (\<exists>k s. st' = attach st k
           \<lparr> source_message_id = msg_id msg, option_texts = opts, assoc_method = Similarity s \<rparr>)"
proof -
  obtain cands where c: "similarity_candidates L msg (potential_questions st) = Inr cands"
    using assms by (cases "similarity_candidates L msg (potential_questions st)")
      (simp_all add: similarity_search_def)
  show ?thesis
  proof (cases "similarity_choice L opts cands")
    case None
    then show ?thesis
      using assms c by (simp add: similarity_search_def)
  next
    case (Some ks)
    obtain k s where ks: "ks = (k, s)" by (cases ks)
    show ?thesis
      using assms c Some ks by (auto simp: similarity_search_def)
  qed
qed

lemma pass2_step_cases:
  assumes "pass2_step L prev msg st = Inr st'"
  shows "st' = st \<or> (msg_id msg \<notin> associated_option_message_ids st
           \<and> (\<exists>k m. st' = attach st k
                 \<lparr> source_message_id = msg_id msg,
                   option_texts = extract_options_from_text (original_text msg),
                   assoc_method = m \<rparr>))"
proof (cases "is_potential_stem msg \<or> msg_id msg \<in> associated_option_message_ids st")
  case True
  then show ?thesis
    using assms by (simp add: pass2_step_def)
next
  case False
  note guard = False
  let ?opts = "extract_options_from_text (original_text msg)"
  show ?thesis
  proof (cases "?opts = []")
    case True
    then show ?thesis
      using assms guard by (simp add: pass2_step_def)
  next
    case False
    note opts = False
    show ?thesis
    proof (cases "case prev of None \<Rightarrow> False
                  | Some p \<Rightarrow> msg_id p \<in> set (dict_keys (potential_questions st))")
      case True
      then have "st' = attach st (msg_id (the prev))
          \<lparr> source_message_id = msg_id msg, option_texts = ?opts, assoc_method = Adjacent \<rparr>"
        using assms guard opts by (simp add: pass2_step_def)
      then show ?thesis
        using guard by blast
    next
      case False
      then have "similarity_search L msg ?opts st = Inr st'"
        using assms guard opts by (simp add: pass2_step_def)
      then show ?thesis
        using similarity_search_cases guard by blast
    qed
  qed
qed

lemma pass2_step_inv:
  assumes "pass2_inv st" and "pass2_step L prev msg st = Inr st'"
  shows "pass2_inv st'"
proof -
  from pass2_step_cases [OF assms(2)]
  consider "st' = st"
    | k m where "msg_id msg \<notin> associated_option_message_ids st"
        "st' = attach st k \<lparr> source_message_id = msg_id msg,
           option_texts = extract_options_from_text (original_text msg), assoc_method = m \<rparr>"
    by blast
  then show ?thesis
  proof cases
    case 1
    then show ?thesis using assms(1) by simp
  next
    case 2
    then show ?thesis
      using attach_inv [OF assms(1), of _ k] by simp
  qed
qed

lemma pass2_inv_preserved:
  "pass2_inv st \<Longrightarrow> pass2 L prev messages st = Inr st' \<Longrightarrow> pass2_inv st'"
proof (induction messages arbitrary: prev st)
  case Nil
  then show ?case by simp
next
  case (Cons msg messages)
  from Cons.prems(2) obtain st1 where step: "pass2_step L prev msg st = Inr st1"
    and rest: "pass2 L (Some msg) messages st1 = Inr st'"
    by (auto split: sum.splits)
  show ?case
    using Cons.IH [OF pass2_step_inv [OF Cons.prems(1) step] rest] .
qed

lemma pass2_inv_final:
  "pass2 L None messages (pass1 messages) = Inr st \<Longrightarrow> pass2_inv st"
  using pass2_inv_preserved [OF pass1_inv_imp_pass2_inv [OF pass1_inv_pass1]] .

text \<open>What a run of \<open>refine_grouping_with_similarity\<close> without error returns.\<close>

lemma refine_grouping_Inr:
  assumes "refine_grouping_with_similarity L messages = Inr out"
  shows "(messages = [] \<and> out = [])
         \<or> (\<exists>st. pass2 L None messages (pass1 messages) = Inr st
               \<and> distinct (dict_keys (potential_questions st))
               \<and> out = map collate (filter emitted (sorted_items (potential_questions st))))"
proof (cases "messages = []")
  case True
  then show ?thesis
    using assms by (simp add: refine_grouping_with_similarity_def)
next
  case False
  then obtain st where st: "pass2 L None messages (pass1 messages) = Inr st"
    and out: "out = pass3 (potential_questions st)"
    using assms
    by (cases "pass2 L None messages (pass1 messages)")
       (simp_all add: refine_grouping_with_similarity_def)
  have "distinct (dict_keys (potential_questions st))"
    using pass2_inv_final [OF st] by (simp add: pass2_inv_def)
  then show ?thesis
    using st out pass3_distinct by blast
qed

lemma unique_options_of_keep_first:
  "unique_options_of q = keep_first lower {} (cleaned_options_of q)"
  by (simp add: unique_options_of_def unique_loop_keep_first)

lemma cleaned_options_nonempty: "opt \<in> set (cleaned_options_of q) \<Longrightarrow> opt \<noteq> []"
  by (auto simp: cleaned_options_of_def Let_def)

section \<open>Lines, stripping and contiguous parts\<close>

lemma newline_is_linebreak: "is_linebreak (CHR 0x0A)"
  by (simp add: is_linebreak_def code_def)

lemma strip_subset: "set (strip s) \<subseteq> set s"
proof -
  have "set (strip s) \<subseteq> set (lstrip s)"
    unfolding strip_def rstrip_def using set_dropWhileD by fastforce
  also have "\<dots> \<subseteq> set s"
    unfolding lstrip_def using set_dropWhileD by fastforce
  finally show ?thesis .
qed

lemma last_rstrip: "rstrip s \<noteq> [] \<Longrightarrow> \<not> isspace (last (rstrip s))"
proof -
  assume "rstrip s \<noteq> []"
  then have ne: "dropWhile isspace (rev s) \<noteq> []"
    by (simp add: rstrip_def)
  then have "\<not> isspace (hd (dropWhile isspace (rev s)))"
    by (rule hd_dropWhile)
  then show ?thesis
    using ne by (simp add: rstrip_def last_rev)
qed

lemma last_strip: "strip s \<noteq> [] \<Longrightarrow> \<not> isspace (last (strip s))"
  unfolding strip_def by (rule last_rstrip)

lemma strip_sublist: "sublist (strip s) s"
proof -
  have "suffix (lstrip s) s"
    unfolding lstrip_def by (rule suffix_dropWhile)
  moreover have "prefix (strip s) (lstrip s)"
  proof -
    have "suffix (dropWhile isspace (rev (lstrip s))) (rev (lstrip s))"
      by (rule suffix_dropWhile)
    then show ?thesis
      unfolding strip_def rstrip_def by (metis rev_rev_ident suffix_to_prefix)
  qed
  ultimately show ?thesis
    by (meson prefix_imp_sublist sublist_order.order_trans suffix_imp_sublist)
qed

text \<open>A contiguous part that starts and ends with a visible character survives stripping.\<close>

lemma dropWhile_keeps_part:
  assumes "o1 \<noteq> []" and "\<not> P (hd o1)"
  shows "\<exists>ps'. dropWhile P (ps @ o1 @ ss) = ps' @ o1 @ ss"
proof (cases "\<forall>c\<in>set ps. P c")
  case True
  then have "dropWhile P (ps @ o1 @ ss) = dropWhile P (o1 @ ss)"
    by (simp add: dropWhile_append)
  also have "\<dots> = o1 @ ss"
    using assms by (cases o1) auto
  finally show ?thesis by (metis append_Nil)
next
  case False
  then have "dropWhile P (ps @ o1 @ ss) = dropWhile P ps @ o1 @ ss"
    by (metis dropWhile_append1)
  then show ?thesis by blast
qed

lemma strip_keeps_part:
  assumes "sublist o1 s" and "o1 \<noteq> []" and "\<not> isspace (hd o1)" and "\<not> isspace (last o1)"
  shows "sublist o1 (strip s)"
proof -
  obtain ps ss where s: "s = ps @ o1 @ ss"
    using assms(1) by (auto simp: sublist_def)
  obtain ps' where l: "lstrip s = ps' @ o1 @ ss"
    unfolding s lstrip_def using dropWhile_keeps_part [of o1 isspace, OF assms(2,3)] by blast
  have "rev o1 \<noteq> []" and "\<not> isspace (hd (rev o1))"
    using assms(2,4) by (simp_all add: hd_rev)
  from dropWhile_keeps_part [of "rev o1" isspace "rev ss" "rev ps'", OF this]
  obtain ss' where "dropWhile isspace (rev ss @ rev o1 @ rev ps') = ss' @ rev o1 @ rev ps'"
    by blast
  then have "strip s = ps' @ o1 @ rev ss'"
    by (simp add: strip_def rstrip_def l)
  then show ?thesis
    by (auto simp: sublist_def)
qed

lemma splitlines_from_sublist:
  "line \<in> set (splitlines_from cur s) \<Longrightarrow> sublist line (cur @ s)"
proof (induction cur s rule: splitlines_from.induct)
  case (1 cur)
  then show ?case by (auto split: if_splits)
next
  case (2 cur c cs)
  have first: "sublist cur (cur @ c # cs)"
    by (simp add: prefix_imp_sublist)
  show ?case
  proof (cases "c = CHR 0x0D \<and> cs \<noteq> [] \<and> hd cs = CHR 0x0A")
    case True
    then have "line = cur \<or> line \<in> set (splitlines_from [] (tl cs))"
      using "2.prems" by simp
    moreover have "sublist line (cur @ c # cs)" if "line \<in> set (splitlines_from [] (tl cs))"
    proof -
      have "sublist line (tl cs)"
        using "2.IH"(1) [OF True that] by simp
      moreover have "cs = hd cs # tl cs"
        using True by (metis list.collapse)
      then have "cur @ c # cs = (cur @ [c, hd cs]) @ tl cs"
        by (metis append.assoc append_Cons append_Nil)
      then have "suffix (tl cs) (cur @ c # cs)"
        by (metis suffixI)
      ultimately show ?thesis
        by (meson sublist_order.order_trans suffix_imp_sublist)
    qed
    ultimately show ?thesis
      using first by blast
  next
    case False
    show ?thesis
    proof (cases "is_linebreak c")
      case True
      then have "line = cur \<or> line \<in> set (splitlines_from [] cs)"
        using "2.prems" False by simp
      moreover have "sublist line (cur @ c # cs)" if "line \<in> set (splitlines_from [] cs)"
      proof -
        have "sublist line cs"
          using "2.IH"(2) [OF False True that] by simp
        moreover have "cur @ c # cs = (cur @ [c]) @ cs"
          by simp
        then have "suffix cs (cur @ c # cs)"
          by (metis suffixI)
        ultimately show ?thesis
          by (meson sublist_order.order_trans suffix_imp_sublist)
      qed
      ultimately show ?thesis
        using first by blast
    next
      case nb: False
      then have "line \<in> set (splitlines_from (cur @ [c]) cs)"
        using "2.prems" False by simp
      then show ?thesis
        using "2.IH"(3) [OF False nb] by simp
    qed
  qed
qed

lemma splitlines_sublist: "line \<in> set (splitlines s) \<Longrightarrow> sublist line s"
  using splitlines_from_sublist [of line "[]" s] by (simp add: splitlines_def)

lemma splitlines_from_no_break:
  "line \<in> set (splitlines_from cur s) \<Longrightarrow> \<forall>c\<in>set cur. \<not> is_linebreak c \<Longrightarrow>
   \<forall>c\<in>set line. \<not> is_linebreak c"
proof (induction cur s rule: splitlines_from.induct)
  case (1 cur)
  then show ?case by (auto split: if_splits)
next
  case (2 cur c cs)
  show ?case
  proof (cases "c = CHR 0x0D \<and> cs \<noteq> [] \<and> hd cs = CHR 0x0A")
    case True
    then have "line = cur \<or> line \<in> set (splitlines_from [] (tl cs))"
      using "2.prems"(1) by simp
    then show ?thesis
      using "2.prems"(2) "2.IH"(1) [OF True] by auto
  next
    case False
    show ?thesis
    proof (cases "is_linebreak c")
      case True
      then have "line = cur \<or> line \<in> set (splitlines_from [] cs)"
        using "2.prems"(1) False by simp
      then show ?thesis
        using "2.prems"(2) "2.IH"(2) [OF False True] by auto
    next
      case nb: False
      then have "line \<in> set (splitlines_from (cur @ [c]) cs)"
        using "2.prems"(1) False by simp
      then show ?thesis
        using "2.IH"(3) [OF False nb] "2.prems"(2) nb by auto
    qed
  qed
qed

lemma splitlines_no_newline: "line \<in> set (splitlines s) \<Longrightarrow> CHR 0x0A \<notin> set line"
  using splitlines_from_no_break [of line "[]" s] newline_is_linebreak
  by (auto simp: splitlines_def)

section \<open>The reader never makes a message without visible text\<close>

lemma digits_suffix: "digits lo hi s = Some r \<Longrightarrow> suffix r s"
  by (auto simp: digits_def Let_def suffix_drop split: if_splits)

lemma lit_suffix: "lit p s = Some r \<Longrightarrow> suffix r s"
  by (auto simp: lit_def suffix_drop split: if_splits)

lemma opt_lit_suffix: "suffix (opt_lit p s) s"
  by (simp add: opt_lit_def suffix_drop)

lemma ts_close_suffix: "ts_close s = Some r \<Longrightarrow> suffix r s"
  unfolding ts_close_def using lit_suffix opt_lit_suffix suffix_order.trans by blast

lemma ts_meridian_suffix:
  assumes "ts_meridian s = Some (g, r)"
  shows "suffix r s"
proof -
  have "ts_close (drop 3 s) = Some r \<or> ts_close s = Some r"
    using assms by (auto simp: ts_meridian_def split: option.splits if_splits)
  then show ?thesis
    using ts_close_suffix suffix_drop suffix_order.trans by blast
qed

lemma ts_seconds_suffix:
  assumes "ts_seconds s = Some (g, r)"
  shows "suffix r s"
proof -
  consider s1 s2 where "lit '':'' s = Some s1" "digits 2 2 s1 = Some s2" "ts_meridian s2 = Some (g, r)"
    | "ts_meridian s = Some (g, r)"
    using assms by (auto simp: ts_seconds_def bind_eq_Some_conv split: option.splits)
  then show ?thesis
  proof cases
    case 1
    then have "suffix s1 s" "suffix s2 s1" "suffix r s2"
      using lit_suffix digits_suffix ts_meridian_suffix by blast+
    then show ?thesis
      using suffix_order.trans by blast
  next
    case 2
    then show ?thesis by (rule ts_meridian_suffix)
  qed
qed

lemma ts_body_suffix:
  assumes "ts_body s = Some (g, r)"
  shows "suffix r s"
proof -
  from assms obtain s1 s2 s3 s4 s5 s6 s7 s8 s9 where steps:
    "digits 1 2 s = Some s1" "lit ''/'' s1 = Some s2" "digits 1 2 s2 = Some s3"
    "lit ''/'' s3 = Some s4" "digits 2 4 s4 = Some s5" "lit '' '' (opt_lit '','' s5) = Some s6"
    "digits 1 2 s6 = Some s7" "lit '':'' s7 = Some s8" "digits 2 2 s8 = Some s9"
    "ts_seconds s9 = Some (g, r)"
    unfolding ts_body_def bind_eq_Some_conv by blast
  have "suffix s6 s5"
    using suffix_order.trans [OF lit_suffix [OF steps(6)] opt_lit_suffix] .
  note s1 = digits_suffix [OF steps(1)]
  note s2 = suffix_order.trans [OF lit_suffix [OF steps(2)] s1]
  note s3 = suffix_order.trans [OF digits_suffix [OF steps(3)] s2]
  note s4 = suffix_order.trans [OF lit_suffix [OF steps(4)] s3]
  note s5 = suffix_order.trans [OF digits_suffix [OF steps(5)] s4]
  note s6 = suffix_order.trans [OF \<open>suffix s6 s5\<close> s5]
  note s7 = suffix_order.trans [OF digits_suffix [OF steps(7)] s6]
  note s8 = suffix_order.trans [OF lit_suffix [OF steps(8)] s7]
  note s9 = suffix_order.trans [OF digits_suffix [OF steps(9)] s8]
  show ?thesis
    using suffix_order.trans [OF ts_seconds_suffix [OF steps(10)] s9] .
qed

lemma ts_prefix_suffix:
  assumes "ts_prefix s = Some (ts, r)"
  shows "suffix r s"
proof -
  obtain g where "ts_body (opt_lit ''['' s) = Some (g, r)"
    using assms by (auto simp: ts_prefix_def Let_def split: option.splits)
  then show ?thesis
    using ts_body_suffix opt_lit_suffix suffix_order.trans by blast
qed

lemma user_end_less: "user_end s = Some n \<Longrightarrow> n < length s"
proof (induction s arbitrary: n)
  case Nil
  then show ?case by simp
next
  case (Cons c cs)
  show ?case
  proof (cases "c = CHR '':'' \<and> starts_with '' '' cs \<and> drop 1 cs \<noteq> [] \<and> hd (drop 1 cs) \<noteq> CHR 0x0A")
    case True
    then have "n = 2" using Cons.prems by simp
    moreover have "length cs > 1" using True by (cases cs) auto
    ultimately show ?thesis by simp
  next
    case False
    then obtain m where "user_end cs = Some m" "n = Suc m"
      using Cons.prems by (auto split: if_splits)
    then show ?thesis
      using Cons.IH by simp
  qed
qed

text \<open>In a line without newline the last group is the rest of the line, and not empty.\<close>

lemma user_and_text_suffix:
  assumes "user_and_text s = Some (u, text)" and "CHR 0x0A \<notin> set s"
  shows "text \<noteq> [] \<and> suffix text s"
proof (cases "user_end s")
  case None
  then have "s \<noteq> []" and "text = takeWhile (\<lambda>c. c \<noteq> CHR 0x0A) s"
    using assms(1) by (auto simp: user_and_text_def split: if_splits)
  moreover have "takeWhile (\<lambda>c. c \<noteq> CHR 0x0A) s = s"
    using assms(2) by (auto simp: takeWhile_eq_all_conv)
  ultimately show ?thesis by simp
next
  case (Some n)
  then have "text = takeWhile (\<lambda>c. c \<noteq> CHR 0x0A) (drop n s)"
    using assms(1) by (simp add: user_and_text_def)
  moreover have "takeWhile (\<lambda>c. c \<noteq> CHR 0x0A) (drop n s) = drop n s"
    using assms(2) by (auto simp: takeWhile_eq_all_conv dest: in_set_dropD)
  moreover have "drop n s \<noteq> []"
    using user_end_less [OF Some] by simp
  ultimately show ?thesis
    by (simp add: suffix_drop)
qed

lemma line_regex_text:
  assumes "line_regex line = Some (ts, u, text)" and "CHR 0x0A \<notin> set line"
  shows "text \<noteq> [] \<and> suffix text line"
proof -
  consider t rest where "ts_prefix line = Some (t, rest)" "user_and_text rest = Some (u, text)"
    | "user_and_text line = Some (u, text)"
    using assms(1) by (auto simp: line_regex_def split: option.splits)
  then show ?thesis
  proof cases
    case 1
    have suf: "suffix rest line"
      using 1(1) by (rule ts_prefix_suffix)
    then have "CHR 0x0A \<notin> set rest"
      using assms(2) by (meson set_mono_suffix subsetD)
    then have "text \<noteq> [] \<and> suffix text rest"
      using 1(2) user_and_text_suffix by blast
    then show ?thesis
      using suf suffix_order.trans by blast
  next
    case 2
    then show ?thesis
      using assms(2) by (rule user_and_text_suffix)
  qed
qed

lemma line_regex_text_visible:
  assumes "line_regex (strip raw) = Some (ts, u, text)" and "CHR 0x0A \<notin> set raw"
    and "strip raw \<noteq> []"
  shows "strip text \<noteq> []"
proof -
  have "CHR 0x0A \<notin> set (strip raw)"
    using assms(2) strip_subset by blast
  then have t: "text \<noteq> []" "suffix text (strip raw)"
    using line_regex_text [OF assms(1)] by simp_all
  then have "last text = last (strip raw)"
    by (metis last_appendR suffix_def)
  then have "\<not> isspace (last text)"
    using last_strip [OF assms(3)] by simp
  moreover have "last text \<in> set text"
    using t(1) by simp
  ultimately show ?thesis
    unfolding strip_eq_Nil_iff by blast
qed

lemma strip_append_visible: "strip a \<noteq> [] \<Longrightarrow> strip (a @ b) \<noteq> []"
  unfolding strip_eq_Nil_iff by auto

lemma strip_strip: "strip (strip s) \<noteq> [] \<longleftrightarrow> strip s \<noteq> []"
proof
  assume "strip (strip s) \<noteq> []"
  then show "strip s \<noteq> []"
    unfolding strip_eq_Nil_iff [of "strip s"] by auto
next
  assume ne: "strip s \<noteq> []"
  then have "\<not> isspace (hd (strip s))" "hd (strip s) \<in> set (strip s)"
    using hd_strip by simp_all
  then show "strip (strip s) \<noteq> []"
    unfolding strip_eq_Nil_iff [of "strip s"] by blast
qed

lemma reader_loop_visible:
  assumes "\<forall>m\<in>set messages. strip (original_text m) \<noteq> []"
    and "\<forall>m. current_message = Some m \<longrightarrow> strip (original_text m) \<noteq> []"
    and "\<forall>raw\<in>set lines. CHR 0x0A \<notin> set raw"
  shows "\<forall>m\<in>set (reader_loop L lines messages current_message n). strip (original_text m) \<noteq> []"
  using assms
proof (induction lines arbitrary: messages current_message n)
  case Nil
  then show ?case by (auto split: option.splits)
next
  case (Cons raw lines)
  have nl: "CHR 0x0A \<notin> set raw" and rest: "\<forall>raw\<in>set lines. CHR 0x0A \<notin> set raw"
    using Cons.prems(3) by simp_all
  have closed: "\<forall>m\<in>set (case current_message of None \<Rightarrow> messages | Some m \<Rightarrow> messages @ [m]).
      strip (original_text m) \<noteq> []"
    using Cons.prems(1,2) by (auto split: option.splits)
  have appended: "\<And>m text. current_message = Some m \<Longrightarrow>
      \<forall>m'. Some (append_text m text) = Some m' \<longrightarrow> strip (original_text m') \<noteq> []"
    using Cons.prems(2) by (simp add: append_text_def strip_append_visible)
  show ?case
  proof (cases "strip raw = []")
    case True
    then show ?thesis
      using Cons.IH [OF Cons.prems(1,2) rest] by simp
  next
    case False
    then obtain ts u body where m: "line_regex (strip raw) = Some (ts, u, body)"
      using line_regex_always_matches by (metis option.exhaust prod_cases3)
    have vis: "strip body \<noteq> []"
      using line_regex_text_visible [OF m nl False] .
    then have tne: "body \<noteq> []"
      by (auto simp: strip_def rstrip_def lstrip_def)
    have new: "\<And>k t. \<forall>m'. Some (new_message L k t u body) = Some m' \<longrightarrow> strip (original_text m') \<noteq> []"
      "\<And>k. \<forall>m'. Some (untimed_message k body) = Some m' \<longrightarrow> strip (original_text m') \<noteq> []"
      using vis by (simp_all add: new_message_def untimed_message_def strip_strip)
    show ?thesis
    proof (cases "\<exists>t. ts = Some t \<and> t \<noteq> []")
      case True
      then obtain t where t: "ts = Some t" "t \<noteq> []" by blast
      show ?thesis
        using Cons.IH [OF closed new(1) rest] False m t by (simp add: Let_def)
    next
      case nots: False
      show ?thesis
      proof (cases current_message)
        case None
        have "reader_loop L (raw # lines) messages current_message n
            = reader_loop L lines messages (Some (untimed_message (n + 1) body)) (n + 1)"
          using False m nots None tne by (cases ts) (simp_all add: Let_def)
        then show ?thesis
          using Cons.IH [OF Cons.prems(1) new(2) rest] by simp
      next
        case (Some cur)
        have "reader_loop L (raw # lines) messages current_message n
            = reader_loop L lines messages (Some (append_text cur body)) n"
          using False m nots Some tne by (cases ts) (simp_all add: Let_def)
        then show ?thesis
          using Cons.IH [OF Cons.prems(1) appended [OF Some] rest] by simp
      qed
    qed
  qed
qed

lemma preprocess_visible:
  "m \<in> set (preprocess_transcript L t) \<Longrightarrow> strip (original_text m) \<noteq> []"
proof -
  assume m: "m \<in> set (preprocess_transcript L t)"
  show ?thesis
  proof (cases "t = []")
    case True
    then show ?thesis using m by (simp add: preprocess_transcript_def)
  next
    case False
    have "\<forall>raw\<in>set (splitlines t). CHR 0x0A \<notin> set raw"
      using splitlines_no_newline by blast
    then have "\<forall>m\<in>set (reader_loop L (splitlines t) [] None 0). strip (original_text m) \<noteq> []"
      by (intro reader_loop_visible) simp_all
    then show ?thesis
      using m False by (simp add: preprocess_transcript_def)
  qed
qed

lemma classified_visible:
  "m \<in> set (classified L t) \<Longrightarrow> strip (original_text m) \<noteq> []"
  using preprocess_visible
  by (auto simp: classified_def identify_potential_stems_def split: if_splits)

section \<open>The stem text of pass 1\<close>

lemma split_stem_lines_step:
  "\<exists>sl' io' sec'.
     split_stem_lines (line # rest) sl io sec = split_stem_lines rest sl' io' sec'
     \<and> ((sl' = sl \<and> io' = io)
        \<or> (strip line \<noteq> [] \<and> sl' = sl \<and> io' = io @ [strip line])
        \<or> (strip line \<noteq> [] \<and> sl' = sl @ [strip line] \<and> io' = io))"
proof (cases "strip line = [] \<or> only_marker_regex_match (strip line)")
  case True
  then have "split_stem_lines (line # rest) sl io sec = split_stem_lines rest sl io sec"
    by (simp add: Let_def)
  then show ?thesis by blast
next
  case False
  then have ne: "strip line \<noteq> []" by simp
  show ?thesis
  proof (cases "option_marker_regex_match (strip line)")
    case True
    then have "split_stem_lines (line # rest) sl io sec
        = split_stem_lines rest sl (io @ [strip line]) OptionSection"
      using False by (simp add: Let_def)
    then show ?thesis using ne by blast
  next
    case nomark: False
    show ?thesis
    proof (cases "sec = StemSection \<and> length sl > 0 \<and> length (strip line) < 80")
      case True
      then have "split_stem_lines (line # rest) sl io sec =
          (if length (last sl) > 50
           then split_stem_lines rest sl (io @ [strip line]) OptionSection
           else split_stem_lines rest (sl @ [strip line]) io sec)"
        using False nomark by (simp add: Let_def)
      then show ?thesis
        using ne by (cases "length (last sl) > 50") (simp_all, blast+)
    next
      case noshort: False
      then have "split_stem_lines (line # rest) sl io sec =
          (if sec = OptionSection
           then split_stem_lines rest sl (io @ [strip line]) sec
           else split_stem_lines rest (sl @ [strip line]) io sec)"
        using False nomark by (auto simp: Let_def)
      then show ?thesis
        using ne by (cases "sec = OptionSection") (simp_all, blast+)
    qed
  qed
qed

text \<open>
  The stem lines and the internal options are stripped lines of the text that are not
  empty, added to the lists the loop starts with.
\<close>

lemma split_stem_lines_parts:
  "set (fst (split_stem_lines lines sl io sec))
     \<subseteq> set sl \<union> {x. x \<noteq> [] \<and> (\<exists>l\<in>set lines. x = strip l)}
   \<and> set (snd (split_stem_lines lines sl io sec))
     \<subseteq> set io \<union> {x. x \<noteq> [] \<and> (\<exists>l\<in>set lines. x = strip l)}
   \<and> (fst (split_stem_lines lines sl io sec) = [] \<longrightarrow> sl = [])"
proof (induction lines arbitrary: sl io sec)
  case Nil
  show ?case by simp
next
  case (Cons line rest)
  obtain sl' io' sec' where step:
    "split_stem_lines (line # rest) sl io sec = split_stem_lines rest sl' io' sec'"
    and acc: "(sl' = sl \<and> io' = io)
        \<or> (strip line \<noteq> [] \<and> sl' = sl \<and> io' = io @ [strip line])
        \<or> (strip line \<noteq> [] \<and> sl' = sl @ [strip line] \<and> io' = io)"
    using split_stem_lines_step by blast
  let ?new = "{x. x \<noteq> [] \<and> (\<exists>l\<in>set (line # rest). x = strip l)}"
  have sl: "set sl' \<subseteq> set sl \<union> ?new" and io: "set io' \<subseteq> set io \<union> ?new"
    and nil: "sl' = [] \<longrightarrow> sl = []"
    using acc by auto
  have sub: "{x. x \<noteq> [] \<and> (\<exists>l\<in>set rest. x = strip l)} \<subseteq> ?new"
    by auto
  have "set (fst (split_stem_lines rest sl' io' sec')) \<subseteq> set sl \<union> ?new"
    using Cons.IH [of sl' io' sec'] sl sub by blast
  moreover have "set (snd (split_stem_lines rest sl' io' sec')) \<subseteq> set io \<union> ?new"
    using Cons.IH [of sl' io' sec'] io sub by blast
  moreover have "fst (split_stem_lines rest sl' io' sec') = [] \<longrightarrow> sl = []"
    using Cons.IH [of sl' io' sec'] nil by blast
  ultimately show ?case
    unfolding step by blast
qed

lemma stem_lines_of_lines:
  "x \<in> set (stem_lines_of msg) \<Longrightarrow>
   x \<noteq> [] \<and> (\<exists>l\<in>set (splitlines (original_text msg)). x = strip l)"
  using split_stem_lines_parts [of "splitlines (original_text msg)" "[]" "[]" StemSection]
  by (auto simp: stem_lines_of_def)

lemma internal_options_of_lines:
  "x \<in> set (internal_options_of msg) \<Longrightarrow>
   x \<noteq> [] \<and> (\<exists>l\<in>set (splitlines (original_text msg)). x = strip l)"
  using split_stem_lines_parts [of "splitlines (original_text msg)" "[]" "[]" StemSection]
  by (auto simp: internal_options_of_def)

lemma join_contains_hd: "xs \<noteq> [] \<Longrightarrow> set (hd xs) \<subseteq> set (join sep xs)"
  by (cases "(sep, xs)" rule: join.cases) auto

lemma stem_lines_joined_visible:
  assumes "stem_lines_of msg \<noteq> []"
  shows "strip (join [CHR 0x0A] (stem_lines_of msg)) \<noteq> []"
proof -
  let ?h = "hd (stem_lines_of msg)"
  have "?h \<in> set (stem_lines_of msg)"
    using assms by simp
  then obtain l where h: "?h \<noteq> []" "?h = strip l"
    using stem_lines_of_lines by blast
  then have "\<not> isspace (hd ?h)" "hd ?h \<in> set ?h"
    using hd_strip [of l] by simp_all
  then have "\<exists>c\<in>set (join [CHR 0x0A] (stem_lines_of msg)). \<not> isspace c"
    using join_contains_hd [OF assms, of "[CHR 0x0A]"] by blast
  then show ?thesis
    unfolding strip_eq_Nil_iff by blast
qed

lemma stem_text_only_stem_entry:
  "stem_text_only (stem_entry msg) =
     (if stem_lines_of msg = [] then strip (original_text msg)
      else strip (join [CHR 0x0A] (stem_lines_of msg)))"
proof (cases "stem_lines_of msg = []")
  case True
  have "strip [] = []"
    by (simp add: strip_def rstrip_def lstrip_def)
  then show ?thesis
    using True by (simp add: stem_entry_def Let_def)
next
  case False
  then show ?thesis
    using stem_lines_joined_visible [OF False] by (simp add: stem_entry_def Let_def)
qed

lemma internal_option_in_text:
  assumes "opt \<in> set (internal_options_of msg)"
  shows "sublist opt (strip (original_text msg))"
proof -
  obtain l where ne: "opt \<noteq> []" and l: "l \<in> set (splitlines (original_text msg))"
    and opt: "opt = strip l"
    using internal_options_of_lines [OF assms] by blast
  have "sublist opt l"
    unfolding opt by (rule strip_sublist)
  moreover have "sublist l (original_text msg)"
    using l by (rule splitlines_sublist)
  ultimately have "sublist opt (original_text msg)"
    by (rule sublist_order.order_trans)
  moreover have "\<not> isspace (hd opt)" "\<not> isspace (last opt)"
    using ne hd_strip [of l] last_strip [of l] by (simp_all add: opt)
  ultimately show ?thesis
    using ne by (intro strip_keeps_part)
qed

lemma foldl_pass1_entries:
  "(k, q) \<in> set (potential_questions (foldl pass1_step st messages)) \<Longrightarrow>
   (k, q) \<in> set (potential_questions st)
   \<or> (\<exists>m\<in>set messages. is_potential_stem m \<and> k = msg_id m \<and> q = stem_entry m)"
proof (induction messages arbitrary: st)
  case Nil
  then show ?case by simp
next
  case (Cons msg messages)
  from Cons.IH [of "pass1_step st msg"] Cons.prems
  consider "(k, q) \<in> set (potential_questions (pass1_step st msg))"
    | "\<exists>m\<in>set messages. is_potential_stem m \<and> k = msg_id m \<and> q = stem_entry m"
    by auto
  then show ?case
  proof cases
    case 1
    show ?thesis
    proof (cases "is_potential_stem msg")
      case True
      then have "(k, q) \<in> set (dict_set (potential_questions st) (msg_id msg) (stem_entry msg))"
        using 1 by (simp add: pass1_step_def)
      then have "(k = msg_id msg \<and> q = stem_entry msg) \<or> (k, q) \<in> set (potential_questions st)"
        by (rule set_dict_set)
      then show ?thesis
        using True by auto
    next
      case False
      then show ?thesis
        using 1 by (simp add: pass1_step_def)
    qed
  next
    case 2
    then show ?thesis by auto
  qed
qed

lemma pass1_entries:
  assumes "(k, q) \<in> set (potential_questions (pass1 messages))"
  shows "\<exists>m\<in>set messages. is_potential_stem m \<and> k = msg_id m \<and> q = stem_entry m"
  using foldl_pass1_entries [of k q _ messages] assms unfolding pass1_def by fastforce

lemma fallback_classified: "classified lib_untimed transcript_fallback = fallback_messages"
  by code_simp

text \<open>
  C10: for every stem recorded by pass 1, if no line of the message is a stem line, the
  stem text is the whole original text, stripped, and every internal option line occurs
  in it; the internal options are the block recorded with the stem. The stem text is not
  empty whenever the original text has a visible character, and so for every stem of a
  transcript that went through the reader and the classifier.
\<close>

theorem C10_stem_text_fallback:
  assumes "(k, q) \<in> set (potential_questions (pass1 messages))"
  shows "(stem_lines_of (stem_message q) = [] \<longrightarrow>
            stem_text_only q = strip (original_text (stem_message q))
            \<and> (\<forall>opt\<in>set (internal_options_of (stem_message q)). sublist opt (stem_text_only q)))
         \<and> (internal_options_of (stem_message q) \<noteq> [] \<longrightarrow>
              option_blocks q =
                [\<lparr> source_message_id = k, option_texts = internal_options_of (stem_message q),
                   assoc_method = Internal \<rparr>])
         \<and> (strip (original_text (stem_message q)) \<noteq> [] \<longrightarrow> stem_text_only q \<noteq> [])
         \<and> (\<forall>L t. messages = classified L t \<longrightarrow>
               original_text (stem_message q) \<noteq> [] \<and> stem_text_only q \<noteq> [])"
proof -
  obtain m where m: "m \<in> set messages" "k = msg_id m" "q = stem_entry m"
    using pass1_entries [OF assms] by blast
  have sm: "stem_message q = m"
    by (simp add: m(3) stem_entry_def Let_def)
  have txt_only: "stem_text_only q =
      (if stem_lines_of m = [] then strip (original_text m)
       else strip (join [CHR 0x0A] (stem_lines_of m)))"
    unfolding m(3) by (rule stem_text_only_stem_entry)
  have a: "stem_lines_of m = [] \<longrightarrow>
      stem_text_only q = strip (original_text m)
      \<and> (\<forall>opt\<in>set (internal_options_of m). sublist opt (stem_text_only q))"
    using txt_only internal_option_in_text by simp
  have b: "internal_options_of m \<noteq> [] \<longrightarrow>
      option_blocks q = [\<lparr> source_message_id = k, option_texts = internal_options_of m,
                           assoc_method = Internal \<rparr>]"
    by (simp add: m(2,3) option_blocks_stem_entry)
  have c: "strip (original_text m) \<noteq> [] \<longrightarrow> stem_text_only q \<noteq> []"
    using txt_only stem_lines_joined_visible [of m] by auto
  have d: "original_text m \<noteq> [] \<and> stem_text_only q \<noteq> []" if "messages = classified L t" for L t
  proof -
    have v: "strip (original_text m) \<noteq> []"
      using classified_visible m(1) that by blast
    then have "original_text m \<noteq> []"
      by (auto simp: strip_def rstrip_def lstrip_def)
    then show ?thesis
      using c v by simp
  qed
  show ?thesis
    unfolding sm using a b c d by blast
qed

theorem C10_stem_text_fallback_witness:
  "potential_questions (pass1 (classified lib_untimed transcript_fallback))
     = [(1, stem_entry (hd fallback_messages))]
   \<and> stem_lines_of (hd fallback_messages) = []
   \<and> internal_options_of (hd fallback_messages) = [''A. Paris or Lyon?'']
   \<and> stem_text_only (stem_entry (hd fallback_messages)) = ''A. Paris or Lyon?''
   \<and> sublist ''A. Paris or Lyon?'' (stem_text_only (stem_entry (hd fallback_messages)))"
proof -
  have p: "potential_questions (pass1 fallback_messages) = [(1, stem_entry (hd fallback_messages))]"
    by code_simp
  have l: "stem_lines_of (hd fallback_messages) = []"
    and i: "internal_options_of (hd fallback_messages) = [''A. Paris or Lyon?'']"
    and s: "strip (original_text (hd fallback_messages)) = ''A. Paris or Lyon?''"
    by code_simp+
  have sm: "stem_message (stem_entry (hd fallback_messages)) = hd fallback_messages"
    by (simp add: stem_entry_def Let_def)
  have "(1, stem_entry (hd fallback_messages)) \<in> set (potential_questions (pass1 fallback_messages))"
    unfolding p by simp
  from C10_stem_text_fallback [OF this]
  have "stem_text_only (stem_entry (hd fallback_messages)) = ''A. Paris or Lyon?''
      \<and> sublist ''A. Paris or Lyon?'' (stem_text_only (stem_entry (hd fallback_messages)))"
    unfolding sm using l i s by simp
  then show ?thesis
    using p l i fallback_classified by simp
qed

section \<open>The window of message numbers\<close>

lemma window_candidates_iff:
  "(k, q) \<in> set (window_candidates current_id d)
     \<longleftrightarrow> (k, q) \<in> set d \<and> max 0 (current_id - 16) \<le> k \<and> k < current_id"
  by (auto simp: window_candidates_def MESSAGE_SEARCH_WINDOW_def Let_def)

lemma transcript_far_classified: "classified lib_far transcript_far = far_messages"
  by code_simp

text \<open>
  C1: no stem earlier than \<open>current_id - 15\<close> should be a candidate. In the transcript of
  seventeen messages the stem is message 1 and the option block is message 17; message 16
  is no stem, so there is no adjacency. Stem \<open>1 = 17 - 16\<close> is in the candidate set of
  message 17, and the block is attached to it by similarity.
\<close>

theorem C1_stem_sixteen_back_is_candidate:
  "map fst (window_candidates 17 (potential_questions (pass1 (classified lib_far transcript_far))))
     = [1]
   \<and> map_sum id associations
         (pass2 lib_far None (classified lib_far transcript_far)
            (pass1 (classified lib_far transcript_far)))
       = Inr [(1, [(17, Similarity 70)])]
   \<and> pipeline lib_far transcript_far
       = Inr [\<lparr> stem_id = 1, stem_text = ''What is the capital of France?'',
                options = [''Paris''] \<rparr>]"
proof -
  have "map fst (window_candidates 17 (potential_questions (pass1 far_messages))) = [1]"
    by code_simp
  moreover have "map_sum id associations (pass2 lib_far None far_messages (pass1 far_messages))
      = Inr [(1, [(17, Similarity 70)])]"
    by code_simp
  moreover have "refine_grouping_with_similarity lib_far far_messages
      = Inr [\<lparr> stem_id = 1, stem_text = ''What is the capital of France?'',
               options = [''Paris''] \<rparr>]"
    by code_simp
  ultimately show ?thesis
    using transcript_far_classified by (simp add: pipeline_def classified_def)
qed

section \<open>The filter by time stamp\<close>

lemma timestamp_filter_Inr:
  "timestamp_filter L mt cands = Inr kept \<Longrightarrow>
   kept = filter (\<lambda>(k, q). \<exists>ts t. timestamp (stem_message q) = Some ts \<and> ts \<noteq> []
                          \<and> fromisoformat L ts = Some t \<and> mt \<le> t) cands"
proof (induction cands arbitrary: kept)
  case Nil
  then show ?case by simp
next
  case (Cons a cands)
  obtain k q where a: "a = (k, q)" by (cases a)
  show ?case
  proof (cases "timestamp (stem_message q)")
    case None
    then show ?thesis
      using Cons by (simp add: a)
  next
    case (Some ts)
    show ?thesis
    proof (cases "ts = []")
      case True
      then show ?thesis
        using Cons Some by (simp add: a)
    next
      case False
      then obtain t where t: "fromisoformat L ts = Some t"
        using Cons.prems Some by (cases "fromisoformat L ts") (simp_all add: a)
      then obtain kept' where k': "timestamp_filter L mt cands = Inr kept'"
        using Cons.prems Some False by (cases "timestamp_filter L mt cands") (simp_all add: a)
      have "kept = (if mt \<le> t then (k, q) # kept' else kept')"
        using Cons.prems Some False t k' by (simp add: a)
      then show ?thesis
        using Cons.IH [OF k'] Some False t by (simp add: a)
    qed
  qed
qed

lemma min_timestamp_of_parsed:
  assumes "timestamp msg = Some ts" "ts \<noteq> []" "fromisoformat L ts = Some current_dt"
  shows "min_timestamp_of L msg =
     (if current_dt - 1200000000 < 0 then Inl OverflowError
      else Inr (Some (current_dt - 1200000000)))"
  using assms by (simp add: min_timestamp_of_def TIME_SEARCH_WINDOW_MINUTES_def)

lemma untimed_messages_classified:
  "classified lib_timed transcript_untimed_stem = untimed_messages"
  by code_simp

text \<open>
  C2, the claim as stated fails: in the transcript the stem (message 1) has no time stamp,
  the option block (message 3) has one, the stem is within the window of message numbers
  and its similarity is 70; the filter by time stamp removes it, and the block is dropped.
\<close>

theorem C2_untimed_stem_is_excluded:
  "timestamp (untimed_messages ! 0) = None
   \<and> timestamp (untimed_messages ! 2) = Some ''2024-01-01T10:01:00''
   \<and> map fst (window_candidates 3 (potential_questions (pass1 untimed_messages))) = [1]
   \<and> similarity_candidates lib_timed (untimed_messages ! 2)
         (potential_questions (pass1 untimed_messages)) = Inr []
   \<and> pipeline lib_timed transcript_untimed_stem = Inr []"
proof -
  have "timestamp (untimed_messages ! 0) = None
      \<and> timestamp (untimed_messages ! 2) = Some ''2024-01-01T10:01:00''"
    by code_simp
  moreover have "map fst (window_candidates 3 (potential_questions (pass1 untimed_messages))) = [1]"
    by code_simp
  moreover have "similarity_candidates lib_timed (untimed_messages ! 2)
      (potential_questions (pass1 untimed_messages)) = Inr []"
    by code_simp
  moreover have "refine_grouping_with_similarity lib_timed untimed_messages = Inr []"
    by code_simp
  ultimately show ?thesis
    using untimed_messages_classified by (simp add: pipeline_def classified_def)
qed

text \<open>
  C2, amended: when the time stamp of the option-block message parses, the candidates
  are exactly the stems of the window whose own time stamp is present, parses and is not
  earlier than 20 minutes before that of the message; a stem without time stamp is
  excluded. Only when the message has no time stamp that parses are all the stems of the
  window candidates.
\<close>

theorem C2_timestamp_filter:
  assumes "similarity_candidates L msg d = Inr candidates"
  shows "(\<forall>ts current_dt.
            timestamp msg = Some ts \<and> ts \<noteq> [] \<and> fromisoformat L ts = Some current_dt \<longrightarrow>
            candidates =
              filter (\<lambda>(k, q). \<exists>ts' t. timestamp (stem_message q) = Some ts' \<and> ts' \<noteq> []
                                 \<and> fromisoformat L ts' = Some t \<and> current_dt - 1200000000 \<le> t)
                (window_candidates (msg_id msg) d)
            \<and> (\<forall>(k, q)\<in>set candidates. timestamp (stem_message q) \<noteq> None))
         \<and> (min_timestamp_of L msg = Inr None \<longrightarrow>
              candidates = window_candidates (msg_id msg) d)"
proof (intro conjI allI impI)
  fix ts current_dt
  assume h: "timestamp msg = Some ts \<and> ts \<noteq> [] \<and> fromisoformat L ts = Some current_dt"
  then have mt: "min_timestamp_of L msg =
      (if current_dt - 1200000000 < 0 then Inl OverflowError
       else Inr (Some (current_dt - 1200000000)))"
    using min_timestamp_of_parsed by blast
  then have no: "\<not> current_dt - 1200000000 < 0"
    using assms by (auto simp: similarity_candidates_def)
  then have "timestamp_filter L (current_dt - 1200000000) (window_candidates (msg_id msg) d)
      = Inr candidates"
    using assms mt by (simp add: similarity_candidates_def)
  then show eq: "candidates =
      filter (\<lambda>(k, q). \<exists>ts' t. timestamp (stem_message q) = Some ts' \<and> ts' \<noteq> []
                         \<and> fromisoformat L ts' = Some t \<and> current_dt - 1200000000 \<le> t)
        (window_candidates (msg_id msg) d)"
    by (rule timestamp_filter_Inr)
  show "\<forall>(k, q)\<in>set candidates. timestamp (stem_message q) \<noteq> None"
    by (subst eq) auto
next
  assume "min_timestamp_of L msg = Inr None"
  then show "candidates = window_candidates (msg_id msg) d"
    using assms by (simp add: similarity_candidates_def)
qed

theorem C2_timestamp_filter_witness:
  "similarity_candidates lib_timed timed_block timed_dict = Inr [timed_dict ! 1]
   \<and> timestamp (stem_message (snd (timed_dict ! 0))) = None
   \<and> timestamp (stem_message (snd (timed_dict ! 1))) \<noteq> None"
proof -
  have c: "similarity_candidates lib_timed timed_block timed_dict = Inr [timed_dict ! 1]"
    by code_simp
  have ts: "timestamp timed_block = Some ''2024-01-01T10:01:00'' \<and> ''2024-01-01T10:01:00'' \<noteq> []
      \<and> fromisoformat lib_timed ''2024-01-01T10:01:00'' = Some 63839700060000000"
    by (simp add: timed_block_def lib_timed_def timed_message_def)
  have "\<forall>(k, q)\<in>set [timed_dict ! 1]. timestamp (stem_message q) \<noteq> None"
    using C2_timestamp_filter [OF c] ts by blast
  moreover have "timestamp (stem_message (snd (timed_dict ! 0))) = None"
    by (simp add: timed_dict_def far_message_def)
  ultimately show ?thesis
    using c by (simp add: case_prod_beta)
qed

section \<open>The reader keeps system notices\<close>

text \<open>
  A stripped line that is not empty always matches \<open>line_regex\<close>, so the branch of the
  reader that drops system notices is never taken.
\<close>

lemma transcript_left_lines:
  "splitlines transcript_left =
     [''01/01/24, 10:00 - Alice: What is the capital of France?'', ''Bob left'']"
  unfolding transcript_left_def by code_simp

lemma transcript_left_line_facts:
  "strip ''01/01/24, 10:00 - Alice: What is the capital of France?''
     = ''01/01/24, 10:00 - Alice: What is the capital of France?''"
  "line_regex ''01/01/24, 10:00 - Alice: What is the capital of France?''
     = Some (Some ''01/01/24, 10:00'', Some ''Alice: '', ''What is the capital of France?'')"
  "strip ''Bob left'' = ''Bob left''"
  "line_regex ''Bob left'' = Some (None, None, ''Bob left'')"
  "strip ''What is the capital of France?'' = ''What is the capital of France?''"
  "is_system_message ''Bob left'' = True"
  by code_simp+

text \<open>
  C3: a line without time stamp that matches a system-notice pattern should be dropped
  while a message is accumulated. The line \<open>Bob left\<close> matches the pattern \<open>left$\<close> and
  follows a stem; the reader appends it to the text of the stem message.
\<close>

theorem C3_system_notice_is_appended:
  "is_system_message ''Bob left''
   \<and> map original_text (preprocess_transcript L transcript_left)
       = [''What is the capital of France?\<newline>Bob left'']"
proof -
  have "transcript_left \<noteq> []"
    unfolding transcript_left_def by simp
  then have "preprocess_transcript L transcript_left =
      [append_text (new_message L 1 ''01/01/24, 10:00'' (Some ''Alice: '')
         ''What is the capital of France?'') ''Bob left'']"
    unfolding preprocess_transcript_def transcript_left_lines
    by (simp add: transcript_left_line_facts Let_def)
  then show ?thesis
    by (simp add: transcript_left_line_facts append_text_def new_message_def)
qed

section \<open>De-duplication of stems\<close>

lemma twice_classified: "classified lib_untimed transcript_twice = twice_messages"
  by code_simp

lemma twice_refined: "refine_grouping_with_similarity lib_untimed twice_messages = Inr twice_out"
  by code_simp

text \<open>
  C5, the claim as stated fails: the transcript holds the same stem text twice, in the
  messages 1 and 3, each followed by an option block; both stems are emitted.
\<close>

theorem C5_same_stem_twice:
  "pipeline lib_untimed transcript_twice =
     Inr [\<lparr> stem_id = 1, stem_text = ''What is the capital of France?'', options = [''Paris''] \<rparr>,
          \<lparr> stem_id = 3, stem_text = ''What is the capital of France?'', options = [''Lyon''] \<rparr>]"
  using twice_classified twice_refined
  by (simp add: pipeline_def classified_def twice_out_def)

lemma stem_id_collate: "map stem_id (map collate items) = map fst items"
  by (induction items) (auto simp: collate_def)

text \<open>
  C5, amended: the result of the heuristic grouping has one collated question per stem
  number at most, in strictly ascending order of the stem numbers, and stems are not
  compared by their text: in every run without error, every stem of the dictionary with a
  stem text and surviving options is emitted, with its own text and options, so two stems
  with different numbers and the same normalised text are both emitted when each has
  surviving options. The de-duplication by the normalised stem text is that of the path
  through the language model: there the first question of every normalised stem text
  survives, as it is, and the order is kept.
\<close>

theorem C5_stems_by_number_and_combination:
  "(refine_grouping_with_similarity L messages = Inr out \<longrightarrow>
      sorted_wrt (<) (map stem_id out)
      \<and> (\<forall>st. pass2 L None messages (pass1 messages) = Inr st \<longrightarrow>
            set out = {\<lparr> stem_id = k, stem_text = stem_text_only q, options = unique_options_of q \<rparr>
                       | k q. (k, q) \<in> set (potential_questions st)
                              \<and> stem_text_only q \<noteq> [] \<and> unique_options_of q \<noteq> []}
            \<and> (\<forall>k1 q1 k2 q2.
                  (k1, q1) \<in> set (potential_questions st) \<and> (k2, q2) \<in> set (potential_questions st)
                  \<and> k1 \<noteq> k2
                  \<and> strip (lower (stem_text_only q1)) = strip (lower (stem_text_only q2))
                  \<and> stem_text_only q1 \<noteq> [] \<and> unique_options_of q1 \<noteq> []
                  \<and> stem_text_only q2 \<noteq> [] \<and> unique_options_of q2 \<noteq> []
                  \<longrightarrow> \<lparr> stem_id = k1, stem_text = stem_text_only q1,
                          options = unique_options_of q1 \<rparr> \<in> set out
                      \<and> \<lparr> stem_id = k2, stem_text = stem_text_only q2,
                            options = unique_options_of q2 \<rparr> \<in> set out)))
   \<and> distinct (map norm_stem (combine_chunk_results qs))
   \<and> norm_stem ` set (combine_chunk_results qs) = norm_stem ` set qs
   \<and> subseq (combine_chunk_results qs) qs
   \<and> (\<forall>q\<in>set (combine_chunk_results qs). find (\<lambda>q'. norm_stem q' = norm_stem q) qs = Some q)"
proof -
  have sorted: "sorted_wrt (<) (map stem_id out)"
    if "refine_grouping_with_similarity L messages = Inr out"
  proof -
    from refine_grouping_Inr [OF that] show ?thesis
    proof (elim disjE exE conjE)
      assume "out = []"
      then show ?thesis by simp
    next
      fix st
      assume dist: "distinct (dict_keys (potential_questions st))"
        and out: "out = map collate (filter emitted (sorted_items (potential_questions st)))"
      let ?items = "sorted_items (potential_questions st)"
      have "sorted (map fst (filter emitted ?items))"
        using sorted_items_sorted by (rule sorted_filter)
      moreover have "distinct (map fst (filter emitted ?items))"
        using dist sorted_items_distinct [of "potential_questions st"]
        by (simp add: dict_keys_def distinct_map_filter)
      ultimately show ?thesis
        unfolding out stem_id_collate by (simp add: strict_sorted_iff)
    qed
  qed
  have all: "set out = {\<lparr> stem_id = k, stem_text = stem_text_only q, options = unique_options_of q \<rparr>
                        | k q. (k, q) \<in> set (potential_questions st)
                               \<and> stem_text_only q \<noteq> [] \<and> unique_options_of q \<noteq> []}"
    if r: "refine_grouping_with_similarity L messages = Inr out"
      and run: "pass2 L None messages (pass1 messages) = Inr st" for st
  proof (cases "messages = []")
    case True
    then have "out = []" "potential_questions st = []"
      using r run by (auto simp: refine_grouping_with_similarity_def pass1_def)
    then show ?thesis by simp
  next
    case False
    then have out: "out = pass3 (potential_questions st)"
      using r run by (simp add: refine_grouping_with_similarity_def)
    have "distinct (dict_keys (potential_questions st))"
      using pass2_inv_final [OF run] by (simp add: pass2_inv_def)
    then have "out = map collate (filter emitted (sorted_items (potential_questions st)))"
      unfolding out by (rule pass3_distinct)
    then have "set out = collate ` {x \<in> set (potential_questions st). emitted x}"
      by (simp add: sorted_items_set)
    also have "\<dots> = {\<lparr> stem_id = k, stem_text = stem_text_only q, options = unique_options_of q \<rparr>
                        | k q. (k, q) \<in> set (potential_questions st)
                               \<and> stem_text_only q \<noteq> [] \<and> unique_options_of q \<noteq> []}"
      by (auto simp: collate_def emitted_def image_iff)
    finally show ?thesis .
  qed
  have eq: "combine_chunk_results qs = keep_first norm_stem {} qs"
  proof -
    have "norm_stem = (\<lambda>q. strip (lower (fst q)))"
      by (simp add: norm_stem_def fun_eq_iff)
    then show ?thesis
      by (simp add: combine_chunk_results_def combine_loop_keep_first)
  qed
  have heuristic: "refine_grouping_with_similarity L messages = Inr out \<longrightarrow>
      sorted_wrt (<) (map stem_id out)
      \<and> (\<forall>st. pass2 L None messages (pass1 messages) = Inr st \<longrightarrow>
            set out = {\<lparr> stem_id = k, stem_text = stem_text_only q, options = unique_options_of q \<rparr>
                       | k q. (k, q) \<in> set (potential_questions st)
                              \<and> stem_text_only q \<noteq> [] \<and> unique_options_of q \<noteq> []}
            \<and> (\<forall>k1 q1 k2 q2.
                  (k1, q1) \<in> set (potential_questions st) \<and> (k2, q2) \<in> set (potential_questions st)
                  \<and> k1 \<noteq> k2
                  \<and> strip (lower (stem_text_only q1)) = strip (lower (stem_text_only q2))
                  \<and> stem_text_only q1 \<noteq> [] \<and> unique_options_of q1 \<noteq> []
                  \<and> stem_text_only q2 \<noteq> [] \<and> unique_options_of q2 \<noteq> []
                  \<longrightarrow> \<lparr> stem_id = k1, stem_text = stem_text_only q1,
                          options = unique_options_of q1 \<rparr> \<in> set out
                      \<and> \<lparr> stem_id = k2, stem_text = stem_text_only q2,
                            options = unique_options_of q2 \<rparr> \<in> set out))"
  proof (intro impI conjI allI)
    assume r: "refine_grouping_with_similarity L messages = Inr out"
    show "sorted_wrt (<) (map stem_id out)"
      using sorted [OF r] .
    fix st
    assume run: "pass2 L None messages (pass1 messages) = Inr st"
    show "set out = {\<lparr> stem_id = k, stem_text = stem_text_only q, options = unique_options_of q \<rparr>
                       | k q. (k, q) \<in> set (potential_questions st)
                              \<and> stem_text_only q \<noteq> [] \<and> unique_options_of q \<noteq> []}"
      using all [OF r run] .
    fix k1 q1 k2 q2
    assume h: "(k1, q1) \<in> set (potential_questions st) \<and> (k2, q2) \<in> set (potential_questions st)
        \<and> k1 \<noteq> k2
        \<and> strip (lower (stem_text_only q1)) = strip (lower (stem_text_only q2))
        \<and> stem_text_only q1 \<noteq> [] \<and> unique_options_of q1 \<noteq> []
        \<and> stem_text_only q2 \<noteq> [] \<and> unique_options_of q2 \<noteq> []"
    show "\<lparr> stem_id = k1, stem_text = stem_text_only q1, options = unique_options_of q1 \<rparr> \<in> set out"
      unfolding all [OF r run] using h by blast
    show "\<lparr> stem_id = k2, stem_text = stem_text_only q2, options = unique_options_of q2 \<rparr> \<in> set out"
      unfolding all [OF r run] using h by blast
  qed
  have combine: "distinct (map norm_stem (combine_chunk_results qs))
      \<and> norm_stem ` set (combine_chunk_results qs) = norm_stem ` set qs
      \<and> subseq (combine_chunk_results qs) qs
      \<and> (\<forall>q\<in>set (combine_chunk_results qs). find (\<lambda>q'. norm_stem q' = norm_stem q) qs = Some q)"
    using keep_first_distinct [of norm_stem "{}" qs] keep_first_keys [of norm_stem "{}" qs]
      keep_first_subseq [of norm_stem "{}" qs] keep_first_is_first [of _ norm_stem "{}" qs]
    unfolding eq by simp
  show ?thesis
    using heuristic combine by (rule conjI)
qed

theorem C5_stems_by_number_and_combination_witness:
  "refine_grouping_with_similarity lib_untimed twice_messages = Inr twice_out
   \<and> map_sum id (\<lambda>st. map (\<lambda>(k, q). (k, strip (lower (stem_text_only q)), unique_options_of q))
                          (potential_questions st))
        (pass2 lib_untimed None twice_messages (pass1 twice_messages))
      = Inr [(1, ''what is the capital of france?'', [''Paris'']),
             (3, ''what is the capital of france?'', [''Lyon''])]
   \<and> sorted_wrt (<) (map stem_id twice_out)
   \<and> set twice_out
       = {\<lparr> stem_id = 1, stem_text = ''What is the capital of France?'', options = [''Paris''] \<rparr>,
          \<lparr> stem_id = 3, stem_text = ''What is the capital of France?'', options = [''Lyon''] \<rparr>}
   \<and> combine_chunk_results [(''What is X?'', [''a'']), ('' what is x? '', [''b''])]
       = [(''What is X?'', [''a''])]"
proof -
  have run: "map_sum id (\<lambda>st. map (\<lambda>(k, q). (k, strip (lower (stem_text_only q)), unique_options_of q))
                          (potential_questions st))
        (pass2 lib_untimed None twice_messages (pass1 twice_messages))
      = Inr [(1, ''what is the capital of france?'', [''Paris'']),
             (3, ''what is the capital of france?'', [''Lyon''])]"
    by code_simp
  have "sorted_wrt (<) (map stem_id twice_out)"
    using C5_stems_by_number_and_combination [of lib_untimed twice_messages twice_out] twice_refined
    by blast
  moreover have "set twice_out
       = {\<lparr> stem_id = 1, stem_text = ''What is the capital of France?'', options = [''Paris''] \<rparr>,
          \<lparr> stem_id = 3, stem_text = ''What is the capital of France?'', options = [''Lyon''] \<rparr>}"
    by (simp add: twice_out_def)
  moreover have "combine_chunk_results [(''What is X?'', [''a'']), ('' what is x? '', [''b''])]
      = [(''What is X?'', [''a''])]"
    by code_simp
  ultimately show ?thesis
    using twice_refined run by simp
qed

section \<open>The choice among the candidates\<close>







section \<open>Scenario A\<close>

lemma scenario_A_lines:
  "splitlines scenario_A =
     [''01/01/24, 10:00 - Alice: What is the capital of France?'',
      ''01/01/24, 10:01 - Bob: A. Paris'', ''B. Lyon'']"
  unfolding scenario_A_def by code_simp

lemma scenario_A_line_facts:
  "strip ''01/01/24, 10:00 - Alice: What is the capital of France?''
     = ''01/01/24, 10:00 - Alice: What is the capital of France?''"
  "line_regex ''01/01/24, 10:00 - Alice: What is the capital of France?''
     = Some (Some ''01/01/24, 10:00'', Some ''Alice: '', ''What is the capital of France?'')"
  "strip ''01/01/24, 10:01 - Bob: A. Paris'' = ''01/01/24, 10:01 - Bob: A. Paris''"
  "line_regex ''01/01/24, 10:01 - Bob: A. Paris''
     = Some (Some ''01/01/24, 10:01'', Some ''Bob: '', ''A. Paris'')"
  "strip ''B. Lyon'' = ''B. Lyon''"
  "line_regex ''B. Lyon'' = Some (None, None, ''B. Lyon'')"
  by code_simp+

lemma scenario_A_read:
  "preprocess_transcript L scenario_A =
     [new_message L 1 ''01/01/24, 10:00'' (Some ''Alice: '') ''What is the capital of France?'',
      reply_A L]"
proof -
  have "scenario_A \<noteq> []"
    unfolding scenario_A_def by simp
  then show ?thesis
    unfolding preprocess_transcript_def scenario_A_lines reply_A_def
    by (simp add: scenario_A_line_facts Let_def)
qed

lemma scenario_A_text_facts:
  "strip ''What is the capital of France?'' = ''What is the capital of France?''"
  "strip ''A. Paris'' = ''A. Paris''"
  "lower ''What is the capital of France?'' = ''what is the capital of france?''"
  "lower ''A. Paris'' = ''a. paris''"
  "lower ''B. Lyon'' = ''b. lyon''"
  "is_stem_text ''what is the capital of france?'' = True"
  "is_stem_text ''a. paris\<newline>b. lyon'' = False"
  "split_stem_lines (splitlines ''What is the capital of France?'') [] [] StemSection
     = ([''What is the capital of France?''], [])"
  "strip (join ''\<newline>'' [''What is the capital of France?'']) = ''What is the capital of France?''"
  "extract_options_from_text ''A. Paris\<newline>B. Lyon'' = [''A. Paris'', ''B. Lyon'']"
  "strip (option_marker_regex_sub ''A. Paris'') = ''Paris''"
  "strip (option_marker_regex_sub ''B. Lyon'') = ''Lyon''"
  "lower ''Paris'' = ''paris''"
  "lower ''Lyon'' = ''lyon''"
  by code_simp+

lemma scenario_A_classified: "classified L scenario_A = [stem_A L, reply_A L]"
  unfolding classified_def scenario_A_read
  by (simp add: identify_potential_stems_def stem_A_def reply_A_def new_message_def
        append_text_def scenario_A_text_facts)

lemma scenario_A_fields:
  "is_potential_stem (stem_A L)" "\<not> is_potential_stem (reply_A L)"
  "msg_id (stem_A L) = 1" "msg_id (reply_A L) = 2"
  "original_text (stem_A L) = ''What is the capital of France?''"
  "original_text (reply_A L) = ''A. Paris\<newline>B. Lyon''"
  by (simp_all add: stem_A_def reply_A_def new_message_def append_text_def scenario_A_text_facts)

lemma scenario_A_pass1:
  "pass1 [stem_A L, reply_A L] =
     \<lparr> potential_questions =
         [(1, \<lparr> stem_message = stem_A L, stem_text_only = ''What is the capital of France?'',
                option_blocks = [] \<rparr>)],
       associated_option_message_ids = {} \<rparr>"
  by (simp add: pass1_def pass1_step_def stem_entry_def stem_lines_of_def internal_options_of_def
        scenario_A_fields scenario_A_text_facts Let_def)

lemma scenario_A_pass2:
  "pass2 L None [stem_A L, reply_A L] (pass1 [stem_A L, reply_A L]) =
     Inr \<lparr> potential_questions =
             [(1, \<lparr> stem_message = stem_A L, stem_text_only = ''What is the capital of France?'',
                    option_blocks = [\<lparr> source_message_id = 2,
                                       option_texts = [''A. Paris'', ''B. Lyon''],
                                       assoc_method = Adjacent \<rparr>] \<rparr>)],
           associated_option_message_ids = {2} \<rparr>"
  unfolding scenario_A_pass1
  by (simp add: pass2_step_def scenario_A_fields scenario_A_text_facts Let_def dict_keys_def
        attach_def append_block_def)

text \<open>
  C7: for the transcript of Scenario A, whatever the library functions do, the pipeline
  returns exactly one collated question, with the stem text \<open>What is the capital of
  France?\<close> and the options \<open>Paris\<close>, \<open>Lyon\<close> in this order, and the only option block is
  the one of message 2, attached to stem 1 by adjacency.
\<close>

theorem C7_scenario_A:
  "pipeline L scenario_A =
     Inr [\<lparr> stem_id = 1, stem_text = ''What is the capital of France?'',
            options = [''Paris'', ''Lyon''] \<rparr>]
   \<and> map_sum id associations
         (pass2 L None (classified L scenario_A) (pass1 (classified L scenario_A)))
       = Inr [(1, [(2, Adjacent)])]"
proof -
  have "refine_grouping_with_similarity L [stem_A L, reply_A L] =
          Inr [\<lparr> stem_id = 1, stem_text = ''What is the capital of France?'',
                 options = [''Paris'', ''Lyon''] \<rparr>]"
    unfolding refine_grouping_with_similarity_def scenario_A_pass2
    by (simp add: pass3_def sorted_items_def unique_options_of_def cleaned_options_of_def
          scenario_A_text_facts Let_def)
  moreover have "map_sum id associations
      (pass2 L None [stem_A L, reply_A L] (pass1 [stem_A L, reply_A L])) = Inr [(1, [(2, Adjacent)])]"
    unfolding scenario_A_pass2 by (simp add: associations_def)
  ultimately show ?thesis
    using scenario_A_classified [of L] by (simp add: pipeline_def classified_def)
qed

section \<open>What is emitted\<close>

text \<open>
  C8: every collated question of a run without error has a stem text and a list of
  options that are not empty; every option is not empty, and is what is left of an
  attached option line after the marker is taken off and the line is stripped; no two
  options are equal up to case, and the options are the first occurrences, in their
  order and in their own spelling, of the cleaned option lines of the stem. A stem whose
  cleaned option lines are none gives no collated question.
\<close>

theorem C8_emitted_questions:
  assumes "refine_grouping_with_similarity L messages = Inr out"
  shows "(\<forall>cq\<in>set out.
            stem_text cq \<noteq> [] \<and> options cq \<noteq> [] \<and> (\<forall>opt\<in>set (options cq). opt \<noteq> [])
            \<and> distinct (map lower (options cq))
            \<and> (\<exists>st q_data.
                  pass2 L None messages (pass1 messages) = Inr st
                  \<and> (stem_id cq, q_data) \<in> set (potential_questions st)
                  \<and> stem_text cq = stem_text_only q_data
                  \<and> subseq (options cq) (cleaned_options_of q_data)
                  \<and> lower ` set (options cq) = lower ` set (cleaned_options_of q_data)
                  \<and> (\<forall>opt\<in>set (options cq).
                        find (\<lambda>x. lower x = lower opt) (cleaned_options_of q_data) = Some opt)))
         \<and> (\<forall>st k q_data.
               pass2 L None messages (pass1 messages) = Inr st
               \<and> (k, q_data) \<in> set (potential_questions st)
               \<and> cleaned_options_of q_data = []
               \<longrightarrow> k \<notin> stem_id ` set out)"
proof -
  from refine_grouping_Inr [OF assms] show ?thesis
  proof (elim disjE exE conjE)
    assume "out = []"
    then show ?thesis by simp
  next
    fix st
    assume run: "pass2 L None messages (pass1 messages) = Inr st"
      and dist: "distinct (dict_keys (potential_questions st))"
      and out: "out = map collate (filter emitted (sorted_items (potential_questions st)))"
    let ?d = "potential_questions st"
    have first: "stem_text cq \<noteq> [] \<and> options cq \<noteq> [] \<and> (\<forall>opt\<in>set (options cq). opt \<noteq> [])
        \<and> distinct (map lower (options cq))
        \<and> (\<exists>st q_data.
              pass2 L None messages (pass1 messages) = Inr st
              \<and> (stem_id cq, q_data) \<in> set (potential_questions st)
              \<and> stem_text cq = stem_text_only q_data
              \<and> subseq (options cq) (cleaned_options_of q_data)
              \<and> lower ` set (options cq) = lower ` set (cleaned_options_of q_data)
              \<and> (\<forall>opt\<in>set (options cq).
                    find (\<lambda>x. lower x = lower opt) (cleaned_options_of q_data) = Some opt))"
      if "cq \<in> set out" for cq
    proof -
      from that obtain k q where kq: "(k, q) \<in> set ?d" and em: "emitted (k, q)"
        and cq: "cq = collate (k, q)"
        unfolding out by (auto simp: sorted_items_set)
      have opts: "options cq = keep_first lower {} (cleaned_options_of q)"
        and stx: "stem_text cq = stem_text_only q" and sid: "stem_id cq = k"
        by (simp_all add: cq collate_def unique_options_of_keep_first)
      have ne: "stem_text cq \<noteq> []" "options cq \<noteq> []"
        using em by (simp_all add: cq collate_def emitted_def)
      have sub: "set (options cq) \<subseteq> set (cleaned_options_of q)"
        unfolding opts by (rule keep_first_subset)
      then have "\<forall>opt\<in>set (options cq). opt \<noteq> []"
        using cleaned_options_nonempty by blast
      moreover have "distinct (map lower (options cq))"
        unfolding opts by (rule keep_first_distinct)
      moreover have "subseq (options cq) (cleaned_options_of q)"
        unfolding opts by (rule keep_first_subseq)
      moreover have "lower ` set (options cq) = lower ` set (cleaned_options_of q)"
        unfolding opts keep_first_keys by simp
      moreover have "\<forall>opt\<in>set (options cq).
          find (\<lambda>x. lower x = lower opt) (cleaned_options_of q) = Some opt"
        unfolding opts using keep_first_is_first by fast
      ultimately show ?thesis
        using ne run kq stx sid by blast
    qed
    have second: "k \<notin> stem_id ` set out"
      if h: "pass2 L None messages (pass1 messages) = Inr st'
          \<and> (k, q_data) \<in> set (potential_questions st') \<and> cleaned_options_of q_data = []"
      for st' k q_data
    proof
      assume "k \<in> stem_id ` set out"
      then obtain k' q where kq: "(k', q) \<in> set ?d" and em: "emitted (k', q)"
        and k: "k = stem_id (collate (k', q))"
        unfolding out by (auto simp: sorted_items_set)
      have k': "k' = k" using k by (simp add: collate_def)
      have "st' = st" using h run by simp
      then have "(k, q_data) \<in> set ?d" using h by simp
      then have "q = q_data"
        using kq k' dist by (metis dict_keys_def eq_key_imp_eq_value)
      then have "unique_options_of q = []"
        using h by (simp add: unique_options_of_keep_first)
      then show False
        using em by (simp add: emitted_def)
    qed
    show ?thesis
      using first second by blast
  qed
qed

theorem C8_emitted_questions_witness:
  "refine_grouping_with_similarity lib_untimed twice_messages = Inr twice_out
   \<and> stem_text (hd twice_out) \<noteq> [] \<and> options (hd twice_out) \<noteq> []
   \<and> distinct (map lower (options (hd twice_out)))"
proof -
  have "hd twice_out \<in> set twice_out"
    by (simp add: twice_out_def)
  then show ?thesis
    using C8_emitted_questions [OF twice_refined] twice_refined by blast
qed

section \<open>Every message gives its options to at most one stem\<close>

text \<open>
  C9: whenever the second pass ends without an error, the option blocks attached to all
  the stems have pairwise distinct \<open>source_message_id\<close>, and each of these numbers is in
  the set \<open>associated_option_message_ids\<close>, which bars the message from a second use.
\<close>

theorem C9_sources_distinct:
  assumes "pass2 L None messages (pass1 messages) = Inr st"
  shows "distinct (map source_message_id (attached_blocks (potential_questions st)))
         \<and> source_message_id ` set (attached_blocks (potential_questions st))
             \<subseteq> associated_option_message_ids st"
  using pass2_inv_final [OF assms] by (simp add: pass2_inv_def)

theorem C9_sources_distinct_witness:
  "(case pass2 lib_untimed None [stem_A lib_untimed, reply_A lib_untimed]
           (pass1 [stem_A lib_untimed, reply_A lib_untimed]) of
      Inl e \<Rightarrow> False
    | Inr st \<Rightarrow> distinct (map source_message_id (attached_blocks (potential_questions st)))
               \<and> map source_message_id (attached_blocks (potential_questions st)) = [2]
               \<and> associated_option_message_ids st = {2})"
proof -
  obtain st where e: "pass2 lib_untimed None [stem_A lib_untimed, reply_A lib_untimed]
      (pass1 [stem_A lib_untimed, reply_A lib_untimed]) = Inr st"
    and st: "map source_message_id (attached_blocks (potential_questions st)) = [2]"
      "associated_option_message_ids st = {2}"
    using scenario_A_pass2 [of lib_untimed] by (simp add: attached_blocks_def)
  show ?thesis
    using C9_sources_distinct [OF e] e st by simp
qed

section \<open>The option extractor never leaves the option section\<close>

text \<open>
  In \<open>extract_loop\<close> the test \<open>in_option_section or option_marker_regex.match(...)\<close> comes
  before the branch that resets the flag, so inside the section every line that is not
  blank, a bare marker or a keyword line is emitted, whatever its length, and the flag
  stays set.
\<close>

lemma extract_loop_in_section:
  "strip line \<noteq> [] \<Longrightarrow> \<not> only_marker_regex_match (strip line) \<Longrightarrow>
   \<not> explicit_option_keywords_match (strip line) \<Longrightarrow>
   extract_loop (line # rest) opts True = extract_loop rest (opts @ [strip line]) True"
  by (simp add: Let_def)

text \<open>
  C4: after the keyword line \<open>options:\<close>, a line of 101 characters \<open>x\<close> without a marker
  should end the option section and not be emitted. The code emits it, and also emits the
  following line of 90 characters \<open>y\<close>, which only the open section can accept (it has no
  marker and the option before it is not short).
\<close>

theorem C4_long_line_is_emitted:
  "extract_options_from_text
     (''options:'' @ [CHR 0x0A] @ replicate 101 (CHR ''x'') @ [CHR 0x0A] @ replicate 90 (CHR ''y''))
   = [replicate 101 (CHR ''x''), replicate 90 (CHR ''y'')]"
  by code_simp

end
